theory Spec2Isabelle
  imports Main "HOL-Library.Multiset"
begin

section \<open>JavaScript values\<close>

text \<open>
  The values that reach the code from JSON documents. \<open>JUndefined\<close> is the result of
  reading a property that is absent; \<open>JRef\<close> stands for an array or an object, which
  JavaScript compares by reference (the number is the identity of the object), so that
  \<open>===\<close> is HOL equality on this type. JSON numbers are taken to be integers.
\<close>

datatype jsval = JUndefined | JNull | JBool bool | JNum int | JStr string | JRef nat

fun truthy :: "jsval \<Rightarrow> bool" where
  "truthy JUndefined = False"
| "truthy JNull = False"
| "truthy (JBool b) = b"
| "truthy (JNum n) = (n \<noteq> 0)"
| "truthy (JStr s) = (s \<noteq> [])"
| "truthy (JRef r) = True"

datatype js_error = NetworkErr | TimeoutErr | HttpErr nat | SyntaxErr | TypeErr

section \<open>Envelopes, posts and pending entries\<close>

text \<open>
  \<open>JSON.parse\<close> and \<open>new Date\<close> are built-ins of the platform. A \<open>data\<close> string is
  represented by what \<open>JSON.parse\<close> makes of it: it throws (\<open>Unparseable\<close>, also for a
  missing \<open>data\<close> field), or it yields a value. The value is \<open>PNull\<close> for \<open>null\<close>, on
  which every property access throws a TypeError, or \<open>PValue d p\<close> for any other value,
  where \<open>d\<close> is the time value of \<open>new Date(parsedData.date)\<close> (\<open>None\<close> for an invalid
  date, whose time value is NaN) and \<open>p\<close> is the value of its \<open>parent\<close> property.
\<close>

datatype parsed = PNull | PValue (pd_date: "int option") (pd_parent: jsval)

datatype data = Unparseable | Parseable parsed

record envelope =
  env_id :: jsval
  env_data :: data
  signature :: string
  publicKey :: string

record pending =
  envelope :: envelope
  timestamp :: int
  attempts :: int

record post =
  post_id :: jsval
  post_data :: data
  post_signature :: string
  post_publicKey :: string
  parsedData :: parsed
  isPending :: bool

section \<open>The environment\<close>

datatype 'a http = NetworkError | Timeout | Response nat 'a

text \<open>
  The body of the answer to \<open>POST /_openherd/inbox\<close>, as \<open>submitPost\<close> reads it:
  \<open>response.json()\<close> throws (\<open>InboxNotJson\<close>), yields \<open>null\<close> (reading \<open>result.ok\<close>
  throws), or yields a value whose \<open>ok\<close> property has the given value.
\<close>

datatype inbox_body = InboxNotJson | InboxNull | InboxValue jsval

text \<open>
  The body of the answer to \<open>GET /_openherd/outbox\<close>, as \<open>fetchPosts\<close> reads it: not
  JSON, a JSON value without a \<open>map\<close> method, or an array. An element of the array is
  \<open>None\<close> for \<open>null\<close> and an object otherwise.
\<close>

datatype outbox_body = OutboxNotJson | OutboxNotArray | OutboxArray "envelope option list"

text \<open>
  What the code reads of the world at one moment: \<open>navigator.onLine\<close>, \<open>Date.now()\<close>,
  whether \<open>localStorage.setItem\<close> accepts a write (it throws when the quota is used up),
  and the answer of the network to a request, by the address of the request.
\<close>

record world =
  isOnline :: bool
  now :: int
  quota_ok :: bool
  POST_inbox :: "string \<Rightarrow> envelope \<Rightarrow> inbox_body http"
  GET_outbox :: "string \<Rightarrow> outbox_body http"

datatype request = POST string envelope

section \<open>OpenHerdService\<close>

text \<open>
  The fields of the service object (\<open>defaultCow\<close> is \<open>settings.defaultCow\<close>), the
  store of the arrays of posts it shares with the application (\<open>cachedPosts\<close> is a
  reference into \<open>arrays\<close>, \<open>fresh\<close> the next unused reference), the two blobs of
  \<open>localStorage\<close> and the log of the requests that \<open>submitPost\<close> sent. The queue is
  a value: no claim depends on its identity.
\<close>

record state =
  defaultCow :: string
  discoveredCows :: "string list"
  cachedPosts :: nat
  pendingPosts :: "pending list"
  arrays :: "nat \<Rightarrow> post list"
  fresh :: nat
  stored_cached :: "post list option"
  stored_pending :: "pending list option"
  requests :: "request list"

text \<open>
  When \<open>setItem\<close> throws, the assignment that follows it in the \<open>try\<close> block is not
  reached. \<open>addPendingPost\<close> has pushed the entry onto \<open>this.pendingPosts\<close> before.
\<close>

definition savePendingPosts :: "world \<Rightarrow> pending list \<Rightarrow> state \<Rightarrow> state" where
  "savePendingPosts w posts s =
     (if quota_ok w then s\<lparr>stored_pending := Some posts, pendingPosts := posts\<rparr> else s)"

definition addPendingPost :: "world \<Rightarrow> envelope \<Rightarrow> state \<Rightarrow> state" where
  "addPendingPost w env s =
     (let s1 = s\<lparr>pendingPosts :=
                 pendingPosts s @ [\<lparr>envelope = env, timestamp = now w, attempts = 0\<rparr>]\<rparr>
      in savePendingPosts w (pendingPosts s1) s1)"

text \<open>\<open>cowUrl || this.settings.defaultCow\<close>: \<open>null\<close> and the empty string are falsy.\<close>

definition target :: "state \<Rightarrow> string option \<Rightarrow> string" where
  "target s cowUrl =
     (case cowUrl of None \<Rightarrow> defaultCow s
      | Some u \<Rightarrow> if u = [] then defaultCow s else u)"

definition response_ok :: "nat \<Rightarrow> bool" where
  "response_ok st = (200 \<le> st \<and> st \<le> 299)"

definition inbox_url :: "string \<Rightarrow> string" where
  "inbox_url url = url @ ''/_openherd/inbox''"

definition submitPost_try :: "world \<Rightarrow> string \<Rightarrow> envelope \<Rightarrow> js_error + jsval" where
  "submitPost_try w url env =
     (case POST_inbox w (inbox_url url) env of
        NetworkError \<Rightarrow> Inl NetworkErr
      | Timeout \<Rightarrow> Inl TimeoutErr
      | Response st body \<Rightarrow>
          if \<not> response_ok st then Inl (HttpErr st)
          else (case body of
                  InboxNotJson \<Rightarrow> Inl SyntaxErr
                | InboxNull \<Rightarrow> Inl TypeErr
                | InboxValue ok \<Rightarrow> Inr ok))"

text \<open>
  \<open>submitPost\<close> is an \<open>async\<close> function: its result is the value its promise is
  fulfilled with, or the exception it is rejected with. The \<open>catch\<close> block turns every
  exception of the \<open>try\<close> block into \<open>false\<close>. A call sends one request.
\<close>

definition submitPost :: "world \<Rightarrow> state \<Rightarrow> envelope \<Rightarrow> string option \<Rightarrow> js_error + jsval" where
  "submitPost w s env cowUrl =
     (case submitPost_try w (target s cowUrl) env of
        Inl e \<Rightarrow> Inr (JBool False)
      | Inr v \<Rightarrow> Inr v)"

definition submitPost_request :: "state \<Rightarrow> envelope \<Rightarrow> string option \<Rightarrow> request" where
  "submitPost_request s env cowUrl = POST (inbox_url (target s cowUrl)) env"

datatype 'a settled = Fulfilled 'a | Rejected js_error

definition allSettled :: "(js_error + 'a) list \<Rightarrow> 'a settled list" where
  "allSettled ps = map (\<lambda>p. case p of Inl e \<Rightarrow> Rejected e | Inr v \<Rightarrow> Fulfilled v) ps"

fun counted :: "jsval settled \<Rightarrow> bool" where
  "counted (Fulfilled v) = truthy v"
| "counted (Rejected e) = False"

definition broadcastPost :: "world \<Rightarrow> envelope \<Rightarrow> bool \<Rightarrow> state \<Rightarrow> nat \<times> state" where
  "broadcastPost w env saveAsPending s =
     (if \<not> isOnline w then
        (0, if saveAsPending then addPendingPost w env s else s)
      else
        let cows = defaultCow s # discoveredCows s;
            results = allSettled (map (\<lambda>cow. submitPost w s env (Some cow)) cows);
            s1 = s\<lparr>requests :=
                     requests s @ map (\<lambda>cow. submitPost_request s env (Some cow)) cows\<rparr>;
            successCount = length (filter counted results)
        in (successCount,
            if successCount = 0 \<and> saveAsPending then addPendingPost w env s1 else s1))"

record sync_result =
  success :: nat
  failed :: nat

text \<open>
  The loop of \<open>syncPendingPosts\<close> over the queue. Entry number \<open>i\<close> is processed in the
  world \<open>ws i\<close>: the loop awaits each broadcast, and connectivity and the nodes' answers
  may change in between. An element of \<open>results\<close> is the \<open>success\<close> flag of the object
  pushed.
\<close>

fun sync_loop ::
  "(nat \<Rightarrow> world) \<Rightarrow> nat \<Rightarrow> pending list \<Rightarrow> bool list \<Rightarrow> pending list \<Rightarrow> state
     \<Rightarrow> bool list \<times> pending list \<times> state" where
  "sync_loop ws i [] results failedPosts s = (results, failedPosts, s)"
| "sync_loop ws i (p # ps) results failedPosts s =
     (let pending = p\<lparr>attempts := attempts p + 1\<rparr>;
          (n, s1) = broadcastPost (ws i) (envelope pending) False s
      in if n > 0 then sync_loop ws (Suc i) ps (results @ [True]) failedPosts s1
         else sync_loop ws (Suc i) ps (results @ [False])
                (if attempts pending < 5 then failedPosts @ [pending] else failedPosts) s1)"

definition syncPendingPosts :: "world \<Rightarrow> (nat \<Rightarrow> world) \<Rightarrow> state \<Rightarrow> sync_result \<times> state" where
  "syncPendingPosts w ws s =
     (if length (pendingPosts s) = 0 then (\<lparr>success = 0, failed = 0\<rparr>, s)
      else if \<not> isOnline w then (\<lparr>success = 0, failed = length (pendingPosts s)\<rparr>, s)
      else
        let (results, failedPosts, s1) = sync_loop ws 0 (pendingPosts s) [] [] s;
            s2 = s1\<lparr>pendingPosts := failedPosts\<rparr>;
            s3 = savePendingPosts (ws (length (pendingPosts s))) (pendingPosts s2) s2
        in (\<lparr>success = length (filter (\<lambda>r. r) results),
             failed = length (filter (\<lambda>r. \<not> r) results)\<rparr>, s3))"

subsection \<open>Reading feeds\<close>

fun map_throw :: "('a \<Rightarrow> js_error + 'b) \<Rightarrow> 'a list \<Rightarrow> js_error + 'b list" where
  "map_throw f [] = Inr []"
| "map_throw f (x # xs) =
     (case f x of
        Inl e \<Rightarrow> Inl e
      | Inr y \<Rightarrow> (case map_throw f xs of Inl e \<Rightarrow> Inl e | Inr ys \<Rightarrow> Inr (y # ys)))"

fun filter_throw :: "('a \<Rightarrow> js_error + bool) \<Rightarrow> 'a list \<Rightarrow> js_error + 'a list" where
  "filter_throw f [] = Inr []"
| "filter_throw f (x # xs) =
     (case f x of
        Inl e \<Rightarrow> Inl e
      | Inr b \<Rightarrow> (case filter_throw f xs of
                    Inl e \<Rightarrow> Inl e
                  | Inr ys \<Rightarrow> Inr (if b then x # ys else ys)))"

definition outbox_url :: "string \<Rightarrow> string" where
  "outbox_url url = url @ ''/_openherd/outbox''"

text \<open>The function that \<open>fetchPosts\<close> maps over the array: \<open>{...post, parsedData: JSON.parse(post.data)}\<close>.\<close>

definition with_parsedData :: "envelope option \<Rightarrow> js_error + post" where
  "with_parsedData el =
     (case el of
        None \<Rightarrow> Inl TypeErr
      | Some e \<Rightarrow>
          (case env_data e of
             Unparseable \<Rightarrow> Inl SyntaxErr
           | Parseable pd \<Rightarrow>
               Inr \<lparr>post_id = env_id e, post_data = env_data e, post_signature = signature e,
                    post_publicKey = publicKey e, parsedData = pd, isPending = False\<rparr>))"

definition fetchPosts_try :: "world \<Rightarrow> string \<Rightarrow> js_error + post list" where
  "fetchPosts_try w url =
     (case GET_outbox w (outbox_url url) of
        NetworkError \<Rightarrow> Inl NetworkErr
      | Timeout \<Rightarrow> Inl TimeoutErr
      | Response st body \<Rightarrow>
          if \<not> response_ok st then Inl (HttpErr st)
          else (case body of
                  OutboxNotJson \<Rightarrow> Inl SyntaxErr
                | OutboxNotArray \<Rightarrow> Inl TypeErr
                | OutboxArray posts \<Rightarrow> map_throw with_parsedData posts))"

definition fetchPosts :: "world \<Rightarrow> state \<Rightarrow> string option \<Rightarrow> post list" where
  "fetchPosts w s cowUrl =
     (case fetchPosts_try w (target s cowUrl) of Inl e \<Rightarrow> [] | Inr posts \<Rightarrow> posts)"

subsection \<open>Arrays and the cache\<close>

definition alloc :: "post list \<Rightarrow> state \<Rightarrow> nat \<times> state" where
  "alloc xs s = (fresh s, s\<lparr>arrays := (arrays s)(fresh s := xs), fresh := Suc (fresh s)\<rparr>)"

definition saveCachedPosts :: "world \<Rightarrow> nat \<Rightarrow> state \<Rightarrow> state" where
  "saveCachedPosts w posts s =
     (let (postsToCache, s1) = alloc (take 100 (arrays s posts)) s
      in if quota_ok w
         then s1\<lparr>stored_cached := Some (arrays s1 postsToCache), cachedPosts := postsToCache\<rparr>
         else s1)"

text \<open>
  \<open>Array.prototype.sort\<close> with a comparison function. The comparison may throw, and a
  result of NaN (\<open>None\<close>) counts as \<open>+0\<close>. The sort is stable; it is written as an
  insertion sort, which calls the comparison on every element as soon as the array has
  two. When the comparison is not a consistent order (some dates are invalid) the
  language leaves the resulting order to the implementation, and this function fixes one.
\<close>

fun insert_sorted ::
  "('a \<Rightarrow> 'a \<Rightarrow> js_error + int option) \<Rightarrow> 'a \<Rightarrow> 'a list \<Rightarrow> js_error + 'a list" where
  "insert_sorted cmp x [] = Inr [x]"
| "insert_sorted cmp x (y # ys) =
     (case cmp x y of
        Inl e \<Rightarrow> Inl e
      | Inr v \<Rightarrow>
          if (case v of None \<Rightarrow> True | Some d \<Rightarrow> d \<le> 0) then Inr (x # y # ys)
          else (case insert_sorted cmp x ys of Inl e \<Rightarrow> Inl e | Inr zs \<Rightarrow> Inr (y # zs)))"

fun array_sort :: "('a \<Rightarrow> 'a \<Rightarrow> js_error + int option) \<Rightarrow> 'a list \<Rightarrow> js_error + 'a list" where
  "array_sort cmp [] = Inr []"
| "array_sort cmp (x # xs) =
     (case array_sort cmp xs of Inl e \<Rightarrow> Inl e | Inr ys \<Rightarrow> insert_sorted cmp x ys)"

text \<open>The comparison function of \<open>sortByDate\<close>: \<open>dateB - dateA\<close>.\<close>

definition compare_dates :: "post \<Rightarrow> post \<Rightarrow> js_error + int option" where
  "compare_dates a b =
     (case parsedData a of
        PNull \<Rightarrow> Inl TypeErr
      | PValue dateA pa \<Rightarrow>
          (case parsedData b of
             PNull \<Rightarrow> Inl TypeErr
           | PValue dateB pb \<Rightarrow>
               Inr (case dateA of
                      None \<Rightarrow> None
                    | Some ta \<Rightarrow> (case dateB of None \<Rightarrow> None | Some tb \<Rightarrow> Some (tb - ta)))))"

text \<open>
  \<open>sortByDate\<close> sorts the array it is given and returns that array. When the
  comparison throws, the array is as it was: the sorted values are written back only
  after the sort has ended.
\<close>

definition sortByDate :: "nat \<Rightarrow> state \<Rightarrow> js_error + nat \<times> state" where
  "sortByDate posts s =
     (case array_sort compare_dates (arrays s posts) of
        Inl e \<Rightarrow> Inl e
      | Inr ordered \<Rightarrow> Inr (posts, s\<lparr>arrays := (arrays s)(posts := ordered)\<rparr>))"

definition getRootPosts :: "post list \<Rightarrow> js_error + post list" where
  "getRootPosts posts =
     filter_throw (\<lambda>post. case parsedData post of
                             PNull \<Rightarrow> Inl TypeErr
                           | PValue d parent \<Rightarrow> Inr (\<not> truthy parent \<or> parent = JNull)) posts"

definition getReplies :: "jsval \<Rightarrow> post list \<Rightarrow> js_error + post list" where
  "getReplies postId posts =
     filter_throw (\<lambda>post. case parsedData post of
                             PNull \<Rightarrow> Inl TypeErr
                           | PValue d parent \<Rightarrow> Inr (parent = postId)) posts"

section \<open>OpenHerdApp.loadPosts\<close>

record app =
  posts :: nat
  loading :: bool
  rendered :: "string list"
  errors :: "string list"

text \<open>
  \<open>new Map(entries)\<close> as an association list in insertion order: setting a key that
  is present replaces its value where it stands, a new key goes to the end.
\<close>

fun map_set :: "('k \<times> 'v) list \<Rightarrow> 'k \<Rightarrow> 'v \<Rightarrow> ('k \<times> 'v) list" where
  "map_set [] k v = [(k, v)]"
| "map_set ((k', v') # m) k v = (if k' = k then (k', v) # m else (k', v') # map_set m k v)"

definition new_Map :: "('k \<times> 'v) list \<Rightarrow> ('k \<times> 'v) list" where
  "new_Map entries = fold (\<lambda>(k, v) m. map_set m k v) entries []"

definition uniquePosts :: "post list \<Rightarrow> post list" where
  "uniquePosts ps = map snd (new_Map (map (\<lambda>post. (post_id post, post)) ps))"

text \<open>Lines 155 to 163: the feed of the primary node, then those of the discovered nodes.\<close>

definition fetch_all :: "world \<Rightarrow> state \<Rightarrow> post list" where
  "fetch_all w s =
     (let ps = fetchPosts w s None
      in if length (discoveredCows s) > 0
         then ps @ concat (map (\<lambda>cow. fetchPosts w s (Some cow)) (discoveredCows s))
         else ps)"

text \<open>
  \<open>this.posts = openherd.sortByDate(r)\<close>. The first component of the result is the
  exception that ended the statement, if any.
\<close>

definition set_posts_sorted :: "nat \<Rightarrow> app \<Rightarrow> state \<Rightarrow> js_error option \<times> app \<times> state" where
  "set_posts_sorted r a s =
     (case sortByDate r s of
        Inl e \<Rightarrow> (Some e, a, s)
      | Inr (r', s') \<Rightarrow> (None, a\<lparr>posts := r'\<rparr>, s'))"

text \<open>
  Lines 153 to 179. \<open>uniquePosts\<close> is a new array; \<open>saveCachedPosts\<close> reads it before
  \<open>sortByDate\<close> puts it in order.
\<close>

definition choose_feed :: "world \<Rightarrow> app \<Rightarrow> state \<Rightarrow> js_error option \<times> app \<times> state" where
  "choose_feed w a s =
     (if isOnline w then
        let (unique, s1) = alloc (uniquePosts (fetch_all w s)) s
        in if length (arrays s1 unique) > 0
           then set_posts_sorted unique a (saveCachedPosts w unique s1)
           else set_posts_sorted (cachedPosts s1) a s1
      else set_posts_sorted (cachedPosts s) a s)"

definition pendingForDisplay :: "pending \<Rightarrow> js_error + post" where
  "pendingForDisplay p =
     (case env_data (envelope p) of
        Unparseable \<Rightarrow> Inl SyntaxErr
      | Parseable pd \<Rightarrow>
          Inr \<lparr>post_id = env_id (envelope p), post_data = env_data (envelope p),
               post_signature = signature (envelope p), post_publicKey = publicKey (envelope p),
               parsedData = pd, isPending = True\<rparr>)"

text \<open>Lines 182 to 189.\<close>

definition merge_pending :: "app \<Rightarrow> state \<Rightarrow> js_error option \<times> app \<times> state" where
  "merge_pending a s =
     (if length (pendingPosts s) > 0 then
        (case map_throw pendingForDisplay (pendingPosts s) of
           Inl e \<Rightarrow> (Some e, a, s)
         | Inr pendingPostsForDisplay \<Rightarrow>
             let (merged, s1) = alloc (pendingPostsForDisplay @ arrays s (posts a)) s
             in set_posts_sorted merged a s1)
      else (None, a, s))"

text \<open>
  \<open>renderPosts\<close>, with the function \<open>renderPost\<close> that writes the HTML of one post as
  a parameter: it reads fields of the post and may throw. The elements of the page are
  taken to exist; \<open>updateSyncStatus\<close>, which follows in \<open>loadPosts\<close>, only writes to
  them.
\<close>

definition renderPosts :: "(post \<Rightarrow> js_error + string) \<Rightarrow> app \<Rightarrow> state \<Rightarrow> js_error option \<times> app" where
  "renderPosts renderPost a s =
     (if length (arrays s (posts a)) = 0 then (None, a\<lparr>rendered := []\<rparr>)
      else (case getRootPosts (arrays s (posts a)) of
              Inl e \<Rightarrow> (Some e, a)
            | Inr rootPosts \<Rightarrow>
                (case map_throw renderPost rootPosts of
                   Inl e \<Rightarrow> (Some e, a)
                 | Inr cards \<Rightarrow> (None, a\<lparr>rendered := cards\<rparr>))))"

definition loadPosts_try ::
  "(post \<Rightarrow> js_error + string) \<Rightarrow> world \<Rightarrow> app \<Rightarrow> state \<Rightarrow> js_error option \<times> app \<times> state" where
  "loadPosts_try renderPost w a s =
     (case choose_feed w a s of
        (Some e, a1, s1) \<Rightarrow> (Some e, a1, s1)
      | (None, a1, s1) \<Rightarrow>
          (case merge_pending a1 s1 of
             (Some e, a2, s2) \<Rightarrow> (Some e, a2, s2)
           | (None, a2, s2) \<Rightarrow>
               (case renderPosts renderPost a2 s2 of (e, a3) \<Rightarrow> (e, a3, s2))))"

definition loadPosts_catch ::
  "(post \<Rightarrow> js_error + string) \<Rightarrow> app \<Rightarrow> state \<Rightarrow> js_error option \<times> app \<times> state" where
  "loadPosts_catch renderPost a s =
     (case set_posts_sorted (cachedPosts s) a s of
        (Some e, a1, s1) \<Rightarrow> (Some e, a1, s1)
      | (None, a1, s1) \<Rightarrow>
          (case renderPosts renderPost a1 s1 of
             (Some e, a2) \<Rightarrow> (Some e, a2, s1)
           | (None, a2) \<Rightarrow>
               (None,
                a2\<lparr>errors := errors a2 @ [''Failed to load posts. Showing cached content.'']\<rparr>,
                s1)))"

text \<open>
  The first component of the result is the exception with which the call ends, if it
  ends with one; the \<open>finally\<close> block has run in every case.
\<close>

definition loadPosts ::
  "(post \<Rightarrow> js_error + string) \<Rightarrow> world \<Rightarrow> app \<Rightarrow> state \<Rightarrow> js_error option \<times> app \<times> state" where
  "loadPosts renderPost w a s =
     (if loading a then (None, a, s)
      else
        let (e, a1, s1) = loadPosts_try renderPost w (a\<lparr>loading := True\<rparr>) s;
            (e', a2, s2) = (case e of
                              None \<Rightarrow> (None, a1, s1)
                            | Some err \<Rightarrow> loadPosts_catch renderPost a1 s1)
        in (e', a2\<lparr>loading := False\<rparr>, s2))"

section \<open>DiscoveryService\<close>

text \<open>
  A service record of the mDNS plugin and the cow that \<open>discover\<close> makes of it. A field
  that is absent is \<open>None\<close>; the port is a number.
\<close>

record service =
  svc_name :: string
  svc_hosts :: "string list option"
  svc_host :: "string option"
  svc_port :: "nat option"
  svc_txt :: "(string \<times> string) list option"

record cow =
  cow_name :: string
  cow_url :: string
  cow_host :: "string option"
  cow_port :: nat
  cow_txt :: "(string \<times> string) list"

text \<open>The decimal digits of a number, as a template literal writes it.\<close>

function decimal :: "nat \<Rightarrow> string" where
  "decimal n =
     (if n < 10 then [''0123456789'' ! n]
      else decimal (n div 10) @ [''0123456789'' ! (n mod 10)])"
  by pat_completeness auto
termination
  by (relation "measure (\<lambda>n. n)") auto

declare decimal.simps [simp del]

definition toCow :: "service \<Rightarrow> cow" where
  "toCow service =
     (let host = (case svc_hosts service of
                    Some (h # hs) \<Rightarrow> Some h
                  | _ \<Rightarrow> svc_host service);
          port = (case svc_port service of
                    None \<Rightarrow> 3000
                  | Some p \<Rightarrow> if p = 0 then 3000 else p)
      in \<lparr>cow_name = svc_name service,
          cow_url = ''http://'' @ (case host of None \<Rightarrow> ''undefined'' | Some h \<Rightarrow> h)
                      @ '':'' @ decimal port,
          cow_host = host,
          cow_port = port,
          cow_txt = (case svc_txt service of None \<Rightarrow> [] | Some t \<Rightarrow> t)\<rparr>)"

text \<open>
  What \<open>mDNS.discover\<close> resolves to: the promise is rejected, or it yields a result with
  an \<open>error\<close> flag and, possibly, a list of services.
\<close>

datatype scan = ScanRejected | ScanResult bool "service list option"

text \<open>
  A subscriber is a callback: it has an identity, and on a given list of cows it
  returns or throws. \<open>notified\<close> is the log of the calls made to subscribers.
\<close>

record listener =
  listener_id :: nat
  listener_throws :: "cow list \<Rightarrow> bool"

record discovery =
  ds_discoveredCows :: "cow list"
  isDiscovering :: bool
  listeners :: "listener list"
  notified :: "(nat \<times> cow list) list"

text \<open>\<open>this.listeners.forEach(listener => listener(cows))\<close>: the first exception ends the loop.\<close>

fun notifyListeners ::
  "listener list \<Rightarrow> cow list \<Rightarrow> (nat \<times> cow list) list \<Rightarrow> js_error option \<times> (nat \<times> cow list) list" where
  "notifyListeners [] cows calls = (None, calls)"
| "notifyListeners (l # ls) cows calls =
     (if listener_throws l cows then (Some TypeErr, calls @ [(listener_id l, cows)])
      else notifyListeners ls cows (calls @ [(listener_id l, cows)]))"

text \<open>
  \<open>discover\<close>, given whether the platform is native and what the scan resolves to. The
  \<open>finally\<close> block resets \<open>isDiscovering\<close> on every path through the \<open>try\<close>.
\<close>

definition discover :: "bool \<Rightarrow> scan \<Rightarrow> discovery \<Rightarrow> cow list \<times> discovery" where
  "discover native result d =
     (if \<not> native then ([], d)
      else
        let d1 = d\<lparr>isDiscovering := True\<rparr>
        in (case result of
              ScanRejected \<Rightarrow> ([], d1\<lparr>isDiscovering := False\<rparr>)
            | ScanResult err services \<Rightarrow>
                if err then ([], d1\<lparr>isDiscovering := False\<rparr>)
                else (case services of
                        None \<Rightarrow> ([], d1\<lparr>isDiscovering := False\<rparr>)
                      | Some svcs \<Rightarrow>
                          if length svcs = 0 then ([], d1\<lparr>isDiscovering := False\<rparr>)
                          else
                            let d2 = d1\<lparr>ds_discoveredCows := map toCow svcs\<rparr>;
                                (e, calls) = notifyListeners (listeners d2) (ds_discoveredCows d2)
                                               (notified d2);
                                d3 = d2\<lparr>notified := calls\<rparr>
                            in (case e of
                                  Some ex \<Rightarrow> ([], d3\<lparr>isDiscovering := False\<rparr>)
                                | None \<Rightarrow> (ds_discoveredCows d3, d3\<lparr>isDiscovering := False\<rparr>)))))"

section \<open>Notions used in the statements\<close>

text \<open>The answer of the node \<open>cow\<close> to the submission of an envelope.\<close>

definition answer :: "world \<Rightarrow> state \<Rightarrow> envelope \<Rightarrow> string \<Rightarrow> inbox_body http" where
  "answer w s env cow = POST_inbox w (inbox_url (target s (Some cow))) env"

text \<open>
  What \<open>broadcastPost\<close> counts: a 2xx answer whose JSON body has a truthy \<open>ok\<close>.
\<close>

fun accepted :: "inbox_body http \<Rightarrow> bool" where
  "accepted (Response st (InboxValue v)) = (response_ok st \<and> truthy v)"
| "accepted _ = False"

text \<open>A submission returned \<open>ok: true\<close>: a 2xx answer whose JSON body has \<open>ok\<close> equal to \<open>true\<close>.\<close>

fun ok_true :: "inbox_body http \<Rightarrow> bool" where
  "ok_true (Response st (InboxValue (JBool True))) = response_ok st"
| "ok_true _ = False"

text \<open>
  The wire protocol answers \<open>{ok: bool}\<close>. What the count needs of an answer to agree
  with the protocol is less: an \<open>ok\<close> that is truthy is the boolean \<open>true\<close>.
\<close>

definition ok_per_protocol :: "inbox_body http \<Rightarrow> bool" where
  "ok_per_protocol r =
     (case r of Response st (InboxValue v) \<Rightarrow> (truthy v \<longrightarrow> v = JBool True) | _ \<Rightarrow> True)"

text \<open>The requests one call of \<open>broadcastPost\<close> sends: none when offline, one for each node otherwise.\<close>

definition broadcast_requests :: "world \<Rightarrow> envelope \<Rightarrow> state \<Rightarrow> request list" where
  "broadcast_requests w env s =
     (if isOnline w
      then map (\<lambda>cow. submitPost_request s env (Some cow)) (defaultCow s # discoveredCows s)
      else [])"

text \<open>The count of \<open>broadcastPost\<close>, over any list of nodes.\<close>

definition successes :: "world \<Rightarrow> state \<Rightarrow> envelope \<Rightarrow> string list \<Rightarrow> nat" where
  "successes w s env cows =
     length (filter counted (allSettled (map (\<lambda>cow. submitPost w s env (Some cow)) cows)))"

text \<open>An entry after \<open>pending.attempts++\<close>.\<close>

definition bump :: "pending \<Rightarrow> pending" where
  "bump p = p\<lparr>attempts := attempts p + 1\<rparr>"

text \<open>
  The broadcast of entry number \<open>i\<close> of the queue, made in the world \<open>ws i\<close>, reached
  at least one node.
\<close>

definition delivered :: "(nat \<Rightarrow> world) \<Rightarrow> state \<Rightarrow> nat \<times> pending \<Rightarrow> bool" where
  "delivered ws s ip = (0 < fst (broadcastPost (ws (fst ip)) (envelope (snd ip)) False s))"

text \<open>
  \<open>PostData.parent\<close> is an optional identifier: absent, \<open>null\<close> or a fingerprint, which is
  a string that is not empty. What the statements need of a parent is less: it is not one
  of the falsy values: the empty string, \<open>0\<close> and \<open>false\<close>.
\<close>

definition parent_in_model :: "jsval \<Rightarrow> bool" where
  "parent_in_model parent = (parent = JUndefined \<or> parent = JNull \<or> truthy parent)"

text \<open>A post has a date when \<open>new Date(parsedData.date)\<close> is a valid date.\<close>

definition dated :: "post \<Rightarrow> bool" where
  "dated p = (case parsedData p of PValue (Some t) parent \<Rightarrow> True | _ \<Rightarrow> False)"

definition date_of :: "post \<Rightarrow> int" where
  "date_of p = (case parsedData p of PValue (Some t) parent \<Rightarrow> t | _ \<Rightarrow> 0)"

definition by_date_desc :: "post list \<Rightarrow> post list" where
  "by_date_desc ps = sort_key (\<lambda>p. - date_of p) ps"

text \<open>
  What every step of \<open>loadPosts\<close> other than \<open>saveCachedPosts\<close> keeps of the cache: the
  reference, the stored blob and the entries of the array, and the array itself when it
  was in order.
\<close>

definition same_cache :: "state \<Rightarrow> state \<Rightarrow> bool" where
  "same_cache s s' =
     (cachedPosts s' = cachedPosts s \<and> stored_cached s' = stored_cached s
      \<and> cachedPosts s' < fresh s'
      \<and> mset (arrays s' (cachedPosts s)) = mset (arrays s (cachedPosts s))
      \<and> ((\<forall>p \<in> set (arrays s (cachedPosts s)). dated p)
           \<and> sorted (map (\<lambda>p. - date_of p) (arrays s (cachedPosts s)))
          \<longrightarrow> arrays s' (cachedPosts s) = arrays s (cachedPosts s)))"

text \<open>The answer of a node to the request for its feed.\<close>

definition source :: "world \<Rightarrow> state \<Rightarrow> string option \<Rightarrow> outbox_body http" where
  "source w s cowUrl = GET_outbox w (outbox_url (target s cowUrl))"

text \<open>
  An element of a feed is malformed for \<open>fetchPosts\<close> when it is \<open>null\<close> or its
  \<open>data\<close> is missing or is not JSON. A fetch fails when there is no answer, the status is
  not 2xx, the body is not a JSON array, or an element of the array is malformed.
\<close>

definition malformed :: "envelope option \<Rightarrow> bool" where
  "malformed el = (case el of None \<Rightarrow> True | Some e \<Rightarrow> env_data e = Unparseable)"

definition fetch_fails :: "outbox_body http \<Rightarrow> bool" where
  "fetch_fails r =
     (case r of
        NetworkError \<Rightarrow> True
      | Timeout \<Rightarrow> True
      | Response st body \<Rightarrow>
          \<not> response_ok st
          \<or> (case body of
                OutboxNotJson \<Rightarrow> True
              | OutboxNotArray \<Rightarrow> True
              | OutboxArray els \<Rightarrow> list_ex malformed els))"

text \<open>
  The posts that an answer which is not a failure carries: one for each element of its
  array, with the parsed \<open>data\<close>.
\<close>

definition served :: "outbox_body http \<Rightarrow> post list" where
  "served r =
     (case r of
        Response st (OutboxArray els) \<Rightarrow>
          concat (map (\<lambda>el. case el of
                              None \<Rightarrow> []
                            | Some e \<Rightarrow>
                                (case env_data e of
                                   Unparseable \<Rightarrow> []
                                 | Parseable pd \<Rightarrow>
                                     [\<lparr>post_id = env_id e, post_data = env_data e,
                                       post_signature = signature e, post_publicKey = publicKey e,
                                       parsedData = pd, isPending = False\<rparr>])) els)
      | _ \<Rightarrow> [])"

text \<open>
  A pending entry whose \<open>data\<close> does not parse, and the posts that \<open>loadPosts\<close> makes
  of a queue for display.
\<close>

definition unparseable :: "pending \<Rightarrow> bool" where
  "unparseable p = (env_data (envelope p) = Unparseable)"

definition shown_pending :: "pending list \<Rightarrow> post list" where
  "shown_pending q =
     concat (map (\<lambda>p. case env_data (envelope p) of
                         Unparseable \<Rightarrow> []
                       | Parseable pd \<Rightarrow>
                           [\<lparr>post_id = env_id (envelope p), post_data = env_data (envelope p),
                             post_signature = signature (envelope p),
                             post_publicKey = publicKey (envelope p),
                             parsedData = pd, isPending = True\<rparr>]) q)"

text \<open>
  What \<open>loadPosts\<close> builds the feed from: the deduplicated fetch result when the device is
  online and that result is not empty, the cache otherwise. And the cache it leaves
  before any fallback: the first 100 posts of that result when it was stored, the cache
  it found otherwise.
\<close>

definition feed_source :: "world \<Rightarrow> state \<Rightarrow> post list" where
  "feed_source w s =
     (if isOnline w \<and> uniquePosts (fetch_all w s) \<noteq> [] then uniquePosts (fetch_all w s)
      else arrays s (cachedPosts s))"

definition cache_after :: "world \<Rightarrow> state \<Rightarrow> post list" where
  "cache_after w s =
     (if isOnline w \<and> uniquePosts (fetch_all w s) \<noteq> [] \<and> quota_ok w
      then take 100 (uniquePosts (fetch_all w s))
      else arrays s (cachedPosts s))"

definition degraded_message :: string where
  "degraded_message = ''Failed to load posts. Showing cached content.''"

text \<open>A scan that gives \<open>discover\<close> nothing: rejected, in error, or without services.\<close>

definition no_services :: "scan \<Rightarrow> bool" where
  "no_services result =
     (case result of
        ScanRejected \<Rightarrow> True
      | ScanResult err services \<Rightarrow>
          err \<or> (case services of None \<Rightarrow> True | Some svcs \<Rightarrow> svcs = []))"

text \<open>
  The subscribers that \<open>notifyListeners\<close> calls: those before the first one that throws,
  and that one.
\<close>

definition called :: "listener list \<Rightarrow> cow list \<Rightarrow> listener list" where
  "called ls cows =
     takeWhile (\<lambda>l. \<not> listener_throws l cows) ls
     @ take 1 (dropWhile (\<lambda>l. \<not> listener_throws l cows) ls)"

subsection \<open>Concrete inputs\<close>

definition env0 :: envelope where
  "env0 = \<lparr>env_id = JStr ''a1'', env_data = Parseable (PValue (Some 10) JNull),
           signature = ''sig'', publicKey = ''key''\<rparr>"

text \<open>A world in which the device is online and no node can be reached.\<close>

definition deaf_world :: world where
  "deaf_world = \<lparr>isOnline = True, now = 0, quota_ok = True,
                  POST_inbox = (\<lambda>u e. NetworkError), GET_outbox = (\<lambda>u. NetworkError)\<rparr>"

definition offline_world :: world where
  "offline_world = deaf_world\<lparr>isOnline := False\<rparr>"

text \<open>A world in which the primary node accepts every envelope and every other node answers 500.\<close>

definition primary_world :: world where
  "primary_world = deaf_world\<lparr>POST_inbox :=
     (\<lambda>u e. if u = ''https://cow.openherd.network/_openherd/inbox''
             then Response 200 (InboxValue (JBool True))
             else Response 500 InboxNotJson)\<rparr>"

definition state0 :: state where
  "state0 = \<lparr>defaultCow = ''https://cow.openherd.network'', discoveredCows = [],
             cachedPosts = 0, pendingPosts = [], arrays = (\<lambda>r. []), fresh = 1,
             stored_cached = None, stored_pending = None, requests = []\<rparr>"

definition mk_post :: "string \<Rightarrow> int \<Rightarrow> jsval \<Rightarrow> post" where
  "mk_post i t parent =
     \<lparr>post_id = JStr i, post_data = Parseable (PValue (Some t) parent), post_signature = ''sig'',
      post_publicKey = ''key'', parsedData = PValue (Some t) parent, isPending = False\<rparr>"

definition render_ok :: "post \<Rightarrow> js_error + string" where
  "render_ok p = Inr ''<ion-card>''"

definition app0 :: app where
  "app0 = \<lparr>posts = 0, loading = False, rendered = [], errors = []\<rparr>"

text \<open>A state whose cache holds an older post before a newer one.\<close>

definition cache_state :: state where
  "cache_state = state0\<lparr>arrays := (\<lambda>r. [])(0 := [mk_post ''a1'' 10 JNull, mk_post ''b2'' 20 JNull])\<rparr>"

definition env1 :: envelope where
  "env1 = \<lparr>env_id = JStr ''b2'', env_data = Parseable (PValue (Some 20) (JStr ''a1'')),
           signature = ''sig'', publicKey = ''key''\<rparr>"

text \<open>
  A world in which the primary node serves one post and the node \<open>http://b:3000\<close>
  serves the same post and one more.
\<close>

definition feed_world :: world where
  "feed_world = deaf_world\<lparr>GET_outbox :=
     (\<lambda>u. if u = ''https://cow.openherd.network/_openherd/outbox''
           then Response 200 (OutboxArray [Some env0])
           else if u = ''http://b:3000/_openherd/outbox''
           then Response 200 (OutboxArray [Some env0, Some env1])
           else NetworkError)\<rparr>"

text \<open>A world in which the primary node cannot be reached and \<open>http://b:3000\<close> serves one post.\<close>

definition half_world :: world where
  "half_world = deaf_world\<lparr>GET_outbox :=
     (\<lambda>u. if u = ''http://b:3000/_openherd/outbox''
           then Response 200 (OutboxArray [Some env1])
           else NetworkError)\<rparr>"

text \<open>An envelope whose \<open>data\<close> is the JSON text \<open>null\<close>.\<close>

definition env_null :: envelope where
  "env_null = \<lparr>env_id = JStr ''c3'', env_data = Parseable PNull,
               signature = ''sig'', publicKey = ''key''\<rparr>"

definition null_world :: world where
  "null_world = deaf_world\<lparr>GET_outbox :=
     (\<lambda>u. if u = ''https://cow.openherd.network/_openherd/outbox''
           then Response 200 (OutboxArray [Some env0, Some env_null])
           else NetworkError)\<rparr>"

text \<open>An envelope whose \<open>data\<close> is not JSON.\<close>

definition env_bad :: envelope where
  "env_bad = \<lparr>env_id = JStr ''d4'', env_data = Unparseable,
              signature = ''sig'', publicKey = ''key''\<rparr>"

text \<open>A state whose queue holds an entry, read back from storage, whose \<open>data\<close> does not parse.\<close>

definition bad_pending_state :: state where
  "bad_pending_state = cache_state\<lparr>pendingPosts := [\<lparr>envelope = env_bad, timestamp = 0, attempts = 0\<rparr>]\<rparr>"

definition svc0 :: service where
  "svc0 = \<lparr>svc_name = ''barn'', svc_hosts = Some [''192.168.1.7''], svc_host = None,
           svc_port = Some 3000, svc_txt = None\<rparr>"

definition quiet_listener :: listener where
  "quiet_listener = \<lparr>listener_id = 0, listener_throws = (\<lambda>cows. False)\<rparr>"

definition throwing_listener :: listener where
  "throwing_listener = \<lparr>listener_id = 1, listener_throws = (\<lambda>cows. True)\<rparr>"

definition discovery0 :: discovery where
  "discovery0 = \<lparr>ds_discoveredCows = [toCow svc0], isDiscovering = False,
                 listeners = [quiet_listener], notified = []\<rparr>"


section \<open>Broadcast and the pending queue\<close>

lemma savePendingPosts_same:
  "pendingPosts (savePendingPosts w (pendingPosts s) s) = pendingPosts s"
  by (simp add: savePendingPosts_def)

lemma savePendingPosts_requests: "requests (savePendingPosts w q s) = requests s"
  by (simp add: savePendingPosts_def)

lemma addPendingPost_pendingPosts:
  "pendingPosts (addPendingPost w env s) =
     pendingPosts s @ [\<lparr>envelope = env, timestamp = now w, attempts = 0\<rparr>]"
  by (simp add: addPendingPost_def Let_def savePendingPosts_def)

lemma addPendingPost_requests: "requests (addPendingPost w env s) = requests s"
  by (simp add: addPendingPost_def Let_def savePendingPosts_def)

text \<open>
  Claim C3. Offline, with the flag \<open>saveAsPending\<close> set, \<open>broadcastPost\<close> returns 0,
  leaves the queue with exactly one entry more, the new entry being the last, holding
  the envelope with \<open>attempts = 0\<close>, and sends no request.
\<close>

theorem broadcastPost_offline_enqueues:
  assumes "\<not> isOnline w"
  shows "fst (broadcastPost w env True s) = 0
       \<and> pendingPosts (snd (broadcastPost w env True s)) =
           pendingPosts s @ [\<lparr>envelope = env, timestamp = now w, attempts = 0\<rparr>]
       \<and> length (pendingPosts (snd (broadcastPost w env True s))) = length (pendingPosts s) + 1
       \<and> requests (snd (broadcastPost w env True s)) = requests s"
  using assms by (simp add: broadcastPost_def addPendingPost_pendingPosts addPendingPost_requests)

theorem broadcastPost_offline_enqueues_witness:
  "\<not> isOnline offline_world
   \<and> fst (broadcastPost offline_world env0 True state0) = 0
   \<and> pendingPosts (snd (broadcastPost offline_world env0 True state0)) =
       [\<lparr>envelope = env0, timestamp = 0, attempts = 0\<rparr>]
   \<and> requests (snd (broadcastPost offline_world env0 True state0)) = []"
proof -
  have off: "\<not> isOnline offline_world"
    by (simp add: offline_world_def)
  show ?thesis
    using broadcastPost_offline_enqueues [OF off, of env0 state0] off
    by (simp add: state0_def offline_world_def deaf_world_def)
qed

text \<open>
  Claim C7. With a queue that is not empty and no connectivity, \<open>syncPendingPosts\<close>
  returns \<open>{success: 0, failed: queueLength}\<close> and the state it leaves is the state it
  found: the queue, the attempts of its entries, the stored blob and the log of requests.
\<close>

theorem syncPendingPosts_offline_unchanged:
  assumes "pendingPosts s \<noteq> []" and "\<not> isOnline w"
  shows "syncPendingPosts w ws s = (\<lparr>success = 0, failed = length (pendingPosts s)\<rparr>, s)"
  using assms by (simp add: syncPendingPosts_def)

theorem syncPendingPosts_offline_unchanged_witness:
  "pendingPosts (state0\<lparr>pendingPosts := [\<lparr>envelope = env0, timestamp = 0, attempts = 2\<rparr>]\<rparr>) \<noteq> []
   \<and> \<not> isOnline offline_world
   \<and> syncPendingPosts offline_world (\<lambda>i. offline_world)
         (state0\<lparr>pendingPosts := [\<lparr>envelope = env0, timestamp = 0, attempts = 2\<rparr>]\<rparr>)
       = (\<lparr>success = 0, failed = 1\<rparr>,
          state0\<lparr>pendingPosts := [\<lparr>envelope = env0, timestamp = 0, attempts = 2\<rparr>]\<rparr>)"
proof -
  let ?s = "state0\<lparr>pendingPosts := [\<lparr>envelope = env0, timestamp = 0, attempts = 2\<rparr>]\<rparr>"
  have q: "pendingPosts ?s \<noteq> []" by simp
  have off: "\<not> isOnline offline_world"
    by (simp add: offline_world_def)
  show ?thesis
    using syncPendingPosts_offline_unchanged [OF q off, of "\<lambda>i. offline_world"] q off by simp
qed

lemma submitPost_never_rejects: "\<exists>v. submitPost w s env cowUrl = Inr v"
  by (simp add: submitPost_def split: sum.splits)

lemma counted_submitPost:
  "counted (case submitPost w s env (Some cow) of Inl e \<Rightarrow> Rejected e | Inr v \<Rightarrow> Fulfilled v)
     = accepted (answer w s env cow)"
proof (cases "answer w s env cow")
  case (Response st body)
  then show ?thesis
    by (cases body) (simp_all add: submitPost_def submitPost_try_def answer_def)
qed (simp_all add: submitPost_def submitPost_try_def answer_def)

lemma accepted_ok_true:
  assumes "ok_per_protocol r"
  shows "accepted r = ok_true r"
proof (cases r)
  case (Response st body)
  show ?thesis
  proof (cases body)
    case (InboxValue v)
    show ?thesis
    proof (cases v)
      case (JBool b)
      with Response InboxValue show ?thesis by (cases b) simp_all
    qed (use Response InboxValue assms in \<open>simp_all add: ok_per_protocol_def\<close>)
  qed (simp_all add: Response)
qed simp_all

lemma broadcastPost_online_fst:
  "isOnline w \<Longrightarrow>
   fst (broadcastPost w env sp s) = successes w s env (defaultCow s # discoveredCows s)"
  by (simp add: broadcastPost_def Let_def successes_def)

lemma successes_filter:
  "successes w s env cows =
     length (filter (\<lambda>cow. counted (case submitPost w s env (Some cow) of
                                       Inl e \<Rightarrow> Rejected e | Inr v \<Rightarrow> Fulfilled v)) cows)"
  by (simp add: successes_def allSettled_def filter_map o_def)

lemma successes_mset:
  assumes "mset cows' = mset cows"
  shows "successes w s env cows' = successes w s env cows"
proof -
  let ?P = "\<lambda>cow. counted (case submitPost w s env (Some cow) of
                               Inl e \<Rightarrow> Rejected e | Inr v \<Rightarrow> Fulfilled v)"
  have "mset (filter ?P cows') = mset (filter ?P cows)"
    using assms by (simp only: mset_filter)
  then have "length (filter ?P cows') = length (filter ?P cows)"
    by (rule mset_eq_length)
  then show ?thesis by (simp only: successes_filter)
qed

lemma successes_cong_state:
  assumes "defaultCow s' = defaultCow s"
  shows "successes w s' env cows = successes w s env cows"
proof -
  have "\<And>c. submitPost w s' env c = submitPost w s env c"
    using assms by (simp add: submitPost_def target_def split: option.splits)
  then show ?thesis by (simp add: successes_def)
qed

lemma broadcastPost_online_requests:
  "isOnline w \<Longrightarrow>
   requests (snd (broadcastPost w env sp s)) =
     requests s @ map (\<lambda>cow. POST ((if cow = [] then defaultCow s else cow) @ ''/_openherd/inbox'') env)
                    (defaultCow s # discoveredCows s)"
  by (simp add: broadcastPost_def Let_def addPendingPost_requests submitPost_request_def
        target_def inbox_url_def)

text \<open>
  Claim C2. Online, \<open>broadcastPost\<close> submits to the primary node and to every discovered
  node: it sends one request for each of them, in their order, to the inbox of the node
  (of the primary node for an empty address), with the envelope, whatever the answers
  are. The count it returns is the number of nodes whose 2xx answer has a truthy
  \<open>ok\<close>; for answers within the wire protocol that is the number of nodes whose
  submission returned \<open>ok: true\<close>. The count is the same for every order of the
  discovered nodes. No submission rejects: a network failure, a timeout and a status
  outside 2xx make \<open>submitPost\<close> return \<open>false\<close>, which is not counted.
\<close>

theorem broadcastPost_successCount:
  assumes "isOnline w"
  shows "fst (broadcastPost w env sp s) =
           length (filter (\<lambda>cow. accepted (answer w s env cow)) (defaultCow s # discoveredCows s))
       \<and> ((\<forall>cow \<in> set (defaultCow s # discoveredCows s). ok_per_protocol (answer w s env cow)) \<longrightarrow>
            fst (broadcastPost w env sp s) =
              length (filter (\<lambda>cow. ok_true (answer w s env cow)) (defaultCow s # discoveredCows s)))
       \<and> (\<forall>s'. defaultCow s' = defaultCow s \<and> mset (discoveredCows s') = mset (discoveredCows s)
              \<longrightarrow> fst (broadcastPost w env sp s') = fst (broadcastPost w env sp s))
       \<and> (\<forall>cow. \<exists>v. submitPost w s env (Some cow) = Inr v)
       \<and> (\<forall>cow st body. answer w s env cow = NetworkError \<or> answer w s env cow = Timeout
              \<or> (answer w s env cow = Response st body \<and> \<not> response_ok st)
              \<longrightarrow> submitPost w s env (Some cow) = Inr (JBool False))
       \<and> requests (snd (broadcastPost w env sp s)) =
           requests s @ map (\<lambda>cow. POST ((if cow = [] then defaultCow s else cow)
                                            @ ''/_openherd/inbox'') env)
                          (defaultCow s # discoveredCows s)"
proof (intro conjI allI impI)
  show "requests (snd (broadcastPost w env sp s)) =
           requests s @ map (\<lambda>cow. POST ((if cow = [] then defaultCow s else cow)
                                            @ ''/_openherd/inbox'') env)
                          (defaultCow s # discoveredCows s)"
    using assms by (rule broadcastPost_online_requests)
next
  show n: "fst (broadcastPost w env sp s) =
           length (filter (\<lambda>cow. accepted (answer w s env cow)) (defaultCow s # discoveredCows s))"
    using assms by (simp only: broadcastPost_online_fst successes_filter counted_submitPost)
  assume "\<forall>cow \<in> set (defaultCow s # discoveredCows s). ok_per_protocol (answer w s env cow)"
  then have "filter (\<lambda>cow. accepted (answer w s env cow)) (defaultCow s # discoveredCows s)
        = filter (\<lambda>cow. ok_true (answer w s env cow)) (defaultCow s # discoveredCows s)"
    by (intro filter_cong refl accepted_ok_true) blast
  then show "fst (broadcastPost w env sp s) =
           length (filter (\<lambda>cow. ok_true (answer w s env cow)) (defaultCow s # discoveredCows s))"
    by (simp only: n)
next
  fix s' :: state
  assume h: "defaultCow s' = defaultCow s \<and> mset (discoveredCows s') = mset (discoveredCows s)"
  have "fst (broadcastPost w env sp s') = successes w s' env (defaultCow s' # discoveredCows s')"
    using assms by (rule broadcastPost_online_fst)
  also have "\<dots> = successes w s env (defaultCow s' # discoveredCows s')"
    using h by (intro successes_cong_state) simp
  also have "\<dots> = successes w s env (defaultCow s # discoveredCows s)"
    using h by (intro successes_mset) simp
  also have "\<dots> = fst (broadcastPost w env sp s)"
    using assms by (simp only: broadcastPost_online_fst)
  finally show "fst (broadcastPost w env sp s') = fst (broadcastPost w env sp s)" .
next
  fix cow show "\<exists>v. submitPost w s env (Some cow) = Inr v"
    by (rule submitPost_never_rejects)
next
  fix cow st body
  assume "answer w s env cow = NetworkError \<or> answer w s env cow = Timeout
              \<or> (answer w s env cow = Response st body \<and> \<not> response_ok st)"
  then show "submitPost w s env (Some cow) = Inr (JBool False)"
    by (auto simp: submitPost_def submitPost_try_def answer_def)
qed

theorem broadcastPost_successCount_witness:
  "isOnline primary_world
   \<and> ok_per_protocol (answer primary_world (state0\<lparr>discoveredCows := [''http://b:3000'']\<rparr>)
         env0 ''https://cow.openherd.network'')
   \<and> ok_per_protocol (answer primary_world (state0\<lparr>discoveredCows := [''http://b:3000'']\<rparr>)
         env0 ''http://b:3000'')
   \<and> fst (broadcastPost primary_world env0 True (state0\<lparr>discoveredCows := [''http://b:3000'']\<rparr>)) = 1
   \<and> requests (snd (broadcastPost primary_world env0 True
                      (state0\<lparr>discoveredCows := [''http://b:3000'']\<rparr>)))
       = [POST ''https://cow.openherd.network/_openherd/inbox'' env0,
          POST ''http://b:3000/_openherd/inbox'' env0]"
proof -
  let ?s = "state0\<lparr>discoveredCows := [''http://b:3000'']\<rparr>"
  have on: "isOnline primary_world"
    by (simp add: primary_world_def deaf_world_def)
  have p1: "ok_per_protocol (answer primary_world ?s env0 ''https://cow.openherd.network'')"
    by (simp add: ok_per_protocol_def answer_def primary_world_def deaf_world_def state0_def
          target_def inbox_url_def)
  have p2: "ok_per_protocol (answer primary_world ?s env0 ''http://b:3000'')"
    by (simp add: ok_per_protocol_def answer_def primary_world_def deaf_world_def state0_def
          target_def inbox_url_def)
  have proto: "\<forall>cow \<in> set (defaultCow ?s # discoveredCows ?s).
                 ok_per_protocol (answer primary_world ?s env0 cow)"
    using p1 p2 by (simp add: state0_def)
  note T = broadcastPost_successCount [OF on, of env0 True ?s]
  have "fst (broadcastPost primary_world env0 True ?s) =
          length (filter (\<lambda>cow. ok_true (answer primary_world ?s env0 cow))
                    (defaultCow ?s # discoveredCows ?s))"
    using T proto by blast
  also have "\<dots> = 1"
    by (simp add: answer_def primary_world_def deaf_world_def state0_def target_def
          inbox_url_def response_ok_def)
  finally have n: "fst (broadcastPost primary_world env0 True ?s) = 1" .
  have "requests (snd (broadcastPost primary_world env0 True ?s)) =
           requests ?s @ map (\<lambda>cow. POST ((if cow = [] then defaultCow ?s else cow)
                                            @ ''/_openherd/inbox'') env0)
                          (defaultCow ?s # discoveredCows ?s)"
    using T by blast
  then have r: "requests (snd (broadcastPost primary_world env0 True ?s))
       = [POST ''https://cow.openherd.network/_openherd/inbox'' env0,
          POST ''http://b:3000/_openherd/inbox'' env0]"
    by (simp add: state0_def)
  show ?thesis using on p1 p2 n r by blast
qed

lemma broadcastPost_False_snd:
  "snd (broadcastPost w env False s) = s\<lparr>requests := requests s @ broadcast_requests w env s\<rparr>"
  by (simp add: broadcastPost_def Let_def broadcast_requests_def)

lemma target_requests_upd [simp]: "target (s\<lparr>requests := r\<rparr>) c = target s c"
  by (simp add: target_def split: option.splits)

lemma submitPost_requests_upd [simp]:
  "submitPost w (s\<lparr>requests := r\<rparr>) env c = submitPost w s env c"
  by (simp add: submitPost_def)

lemma submitPost_request_requests_upd [simp]:
  "submitPost_request (s\<lparr>requests := r\<rparr>) env c = submitPost_request s env c"
  by (simp add: submitPost_request_def)

lemma broadcastPost_fst_requests_upd [simp]:
  "fst (broadcastPost w env False (s\<lparr>requests := r\<rparr>)) = fst (broadcastPost w env False s)"
  by (simp add: broadcastPost_def Let_def)

lemma broadcast_requests_requests_upd [simp]:
  "broadcast_requests w env (s\<lparr>requests := r\<rparr>) = broadcast_requests w env s"
  by (simp add: broadcast_requests_def)

lemma sync_loop_eq:
  "sync_loop ws i ps results failedPosts (s\<lparr>requests := r\<rparr>) =
     (results @ map (delivered ws s) (enumerate i ps),
      failedPosts @ map (bump \<circ> snd)
         (filter (\<lambda>ip. \<not> delivered ws s ip \<and> attempts (snd ip) + 1 < 5) (enumerate i ps)),
      s\<lparr>requests := r @ concat (map (\<lambda>ip. broadcast_requests (ws (fst ip)) (envelope (snd ip)) s)
                                   (enumerate i ps))\<rparr>)"
proof (induction ps arbitrary: i results failedPosts r)
  case Nil
  show ?case by simp
next
  case (Cons p ps)
  obtain n s1 where b: "broadcastPost (ws i) (envelope p) False (s\<lparr>requests := r\<rparr>) = (n, s1)"
    by (cases "broadcastPost (ws i) (envelope p) False (s\<lparr>requests := r\<rparr>)")
  have n: "n = fst (broadcastPost (ws i) (envelope p) False s)"
    using b broadcastPost_fst_requests_upd [where w = "ws i" and env = "envelope p" and s = s and r = r] by simp
  have s1: "s1 = s\<lparr>requests := (r @ broadcast_requests (ws i) (envelope p) s)\<rparr>"
    using b broadcastPost_False_snd [where w = "ws i" and env = "envelope p" and s = "s\<lparr>requests := r\<rparr>"] by simp
  show ?case
    using b by (simp add: Let_def s1 Cons.IH delivered_def bump_def n [symmetric])
qed

text \<open>
  Claim C1. Online, with a queue that is not empty, \<open>syncPendingPosts\<close> increments the
  attempts of every entry once and broadcasts its envelope once, in the order of the
  queue. The queue it leaves holds exactly the incremented entries whose broadcast
  reached no node and whose attempts are below 5 after the increment; an entry that
  fails with attempts at 5 or more is dropped. So no entry of the queue it leaves has
  attempts of 5 or more, and none is there to be retried; \<open>broadcastPost\<close>, which
  adds entries with no attempts, keeps the queue so.
\<close>

theorem syncPendingPosts_bounded_retry:
  assumes "pendingPosts s \<noteq> []" and "isOnline w"
  shows "pendingPosts (snd (syncPendingPosts w ws s)) =
           map (bump \<circ> snd)
             (filter (\<lambda>ip. \<not> delivered ws s ip \<and> attempts (snd ip) + 1 < 5)
                (enumerate 0 (pendingPosts s)))
       \<and> (\<forall>p \<in> set (pendingPosts (snd (syncPendingPosts w ws s))). attempts p < 5)
       \<and> requests (snd (syncPendingPosts w ws s)) =
           requests s @ concat (map (\<lambda>ip. broadcast_requests (ws (fst ip)) (envelope (snd ip)) s)
                                  (enumerate 0 (pendingPosts s)))
       \<and> success (fst (syncPendingPosts w ws s)) =
           length (filter (delivered ws s) (enumerate 0 (pendingPosts s)))
       \<and> failed (fst (syncPendingPosts w ws s)) =
           length (filter (\<lambda>ip. \<not> delivered ws s ip) (enumerate 0 (pendingPosts s)))
       \<and> ((\<forall>p \<in> set (pendingPosts s). attempts p < 5) \<longrightarrow>
            (\<forall>p \<in> set (pendingPosts (snd (broadcastPost w' env sp s))). attempts p < 5))"
proof -
  let ?q = "enumerate 0 (pendingPosts s)"
  let ?kept = "map (bump \<circ> snd)
                 (filter (\<lambda>ip. \<not> delivered ws s ip \<and> attempts (snd ip) + 1 < 5) ?q)"
  let ?reqs = "requests s @ concat (map (\<lambda>ip. broadcast_requests (ws (fst ip)) (envelope (snd ip)) s) ?q)"
  have loop: "sync_loop ws 0 (pendingPosts s) [] [] s =
          (map (delivered ws s) ?q, ?kept, s\<lparr>requests := ?reqs\<rparr>)"
    using sync_loop_eq [where ws = ws and i = 0 and ps = "pendingPosts s" and results = "[]"
                          and failedPosts = "[]" and s = s and r = "requests s"]
    by simp
  have res: "syncPendingPosts w ws s =
      (\<lparr>success = length (filter (\<lambda>r. r) (map (delivered ws s) ?q)),
        failed = length (filter (\<lambda>r. \<not> r) (map (delivered ws s) ?q))\<rparr>,
       savePendingPosts (ws (length (pendingPosts s))) ?kept
         (s\<lparr>requests := ?reqs, pendingPosts := ?kept\<rparr>))"
    using assms by (simp add: syncPendingPosts_def loop)
  have kept: "pendingPosts (snd (syncPendingPosts w ws s)) = ?kept"
    by (simp add: res savePendingPosts_def)
  have small: "\<forall>p \<in> set ?kept. attempts p < 5"
    by (auto simp: bump_def)
  have reqs: "requests (snd (syncPendingPosts w ws s)) = ?reqs"
    by (simp add: res savePendingPosts_def)
  have succ: "success (fst (syncPendingPosts w ws s)) = length (filter (delivered ws s) ?q)"
    by (simp add: res filter_map o_def)
  have fail: "failed (fst (syncPendingPosts w ws s)) = length (filter (\<lambda>ip. \<not> delivered ws s ip) ?q)"
    by (simp add: res filter_map o_def)
  have inv: "(\<forall>p \<in> set (pendingPosts s). attempts p < 5) \<longrightarrow>
            (\<forall>p \<in> set (pendingPosts (snd (broadcastPost w' env sp s))). attempts p < 5)"
    by (simp add: broadcastPost_def Let_def addPendingPost_pendingPosts)
  show ?thesis
    using kept small reqs succ fail inv by (simp only: simp_thms)
qed

theorem syncPendingPosts_bounded_retry_witness:
  "pendingPosts (state0\<lparr>pendingPosts := [\<lparr>envelope = env0, timestamp = 0, attempts = 4\<rparr>]\<rparr>) \<noteq> []
   \<and> isOnline deaf_world
   \<and> pendingPosts (snd (syncPendingPosts deaf_world (\<lambda>i. deaf_world)
        (state0\<lparr>pendingPosts := [\<lparr>envelope = env0, timestamp = 0, attempts = 4\<rparr>]\<rparr>))) = []
   \<and> failed (fst (syncPendingPosts deaf_world (\<lambda>i. deaf_world)
        (state0\<lparr>pendingPosts := [\<lparr>envelope = env0, timestamp = 0, attempts = 4\<rparr>]\<rparr>))) = 1"
proof -
  let ?s = "state0\<lparr>pendingPosts := [\<lparr>envelope = env0, timestamp = 0, attempts = 4\<rparr>]\<rparr>"
  have a: "pendingPosts ?s \<noteq> []" by simp
  have b: "isOnline deaf_world" by (simp add: deaf_world_def)
  have d: "\<not> delivered (\<lambda>i. deaf_world) ?s (0, \<lparr>envelope = env0, timestamp = 0, attempts = 4\<rparr>)"
    by (simp add: delivered_def broadcastPost_def deaf_world_def state0_def Let_def allSettled_def
          submitPost_def submitPost_try_def)
  show ?thesis
    using syncPendingPosts_bounded_retry [OF a b, of "\<lambda>i. deaf_world"] a b d
    by (simp add: enumerate_eq_zip)
qed

section \<open>Threads\<close>

lemma getRootPosts_falsy:
  "\<forall>p \<in> set ps. parsedData p \<noteq> PNull \<Longrightarrow>
   getRootPosts ps = Inr (filter (\<lambda>p. \<not> truthy (pd_parent (parsedData p))) ps)"
proof (induction ps)
  case Nil
  show ?case by (simp add: getRootPosts_def)
next
  case (Cons p ps)
  then have ih: "getRootPosts ps = Inr (filter (\<lambda>p. \<not> truthy (pd_parent (parsedData p))) ps)"
    by simp
  from Cons.prems obtain d parent where p: "parsedData p = PValue d parent"
    by (cases "parsedData p") auto
  have "(\<not> truthy parent \<or> parent = JNull) = (\<not> truthy parent)"
    by auto
  then show ?case
    using ih p by (simp add: getRootPosts_def)
qed

lemma getReplies_strict:
  "\<forall>p \<in> set ps. parsedData p \<noteq> PNull \<Longrightarrow>
   getReplies x ps = Inr (filter (\<lambda>p. pd_parent (parsedData p) = x) ps)"
proof (induction ps)
  case Nil
  show ?case by (simp add: getReplies_def)
next
  case (Cons p ps)
  then have ih: "getReplies x ps = Inr (filter (\<lambda>p. pd_parent (parsedData p) = x) ps)"
    by simp
  from Cons.prems obtain d parent where p: "parsedData p = PValue d parent"
    by (cases "parsedData p") auto
  show ?case
    using ih p by (simp add: getReplies_def)
qed

text \<open>
  Claim C8. On posts whose \<open>parsedData\<close> is not \<open>null\<close>, \<open>getRootPosts\<close> returns the
  posts whose parent is falsy, in their order; for parents of the data model these are
  exactly the posts whose parent is absent or \<open>null\<close>. \<open>getReplies x\<close> returns exactly
  the posts whose parent is \<open>x\<close>; for a fingerprint \<open>x\<close> that is equality of strings.
\<close>

theorem getRootPosts_getReplies_exact:
  assumes "\<forall>p \<in> set ps. parsedData p \<noteq> PNull"
  shows "getRootPosts ps = Inr (filter (\<lambda>p. \<not> truthy (pd_parent (parsedData p))) ps)
       \<and> ((\<forall>p \<in> set ps. parent_in_model (pd_parent (parsedData p))) \<longrightarrow>
            getRootPosts ps =
              Inr (filter (\<lambda>p. pd_parent (parsedData p) = JUndefined
                             \<or> pd_parent (parsedData p) = JNull) ps))
       \<and> getReplies x ps = Inr (filter (\<lambda>p. pd_parent (parsedData p) = x) ps)"
proof (intro conjI impI)
  show f: "getRootPosts ps = Inr (filter (\<lambda>p. \<not> truthy (pd_parent (parsedData p))) ps)"
    using assms by (rule getRootPosts_falsy)
  show "getReplies x ps = Inr (filter (\<lambda>p. pd_parent (parsedData p) = x) ps)"
    using assms by (rule getReplies_strict)
  assume m: "\<forall>p \<in> set ps. parent_in_model (pd_parent (parsedData p))"
  have "filter (\<lambda>p. \<not> truthy (pd_parent (parsedData p))) ps
      = filter (\<lambda>p. pd_parent (parsedData p) = JUndefined \<or> pd_parent (parsedData p) = JNull) ps"
  proof (rule filter_cong [OF refl])
    fix p assume "p \<in> set ps"
    with m have "parent_in_model (pd_parent (parsedData p))" by blast
    then show "(\<not> truthy (pd_parent (parsedData p)))
        = (pd_parent (parsedData p) = JUndefined \<or> pd_parent (parsedData p) = JNull)"
      by (auto simp: parent_in_model_def)
  qed
  with f show "getRootPosts ps =
              Inr (filter (\<lambda>p. pd_parent (parsedData p) = JUndefined
                             \<or> pd_parent (parsedData p) = JNull) ps)"
    by simp
qed

theorem getRootPosts_getReplies_exact_witness:
  "parsedData (mk_post ''a1'' 10 JNull) \<noteq> PNull
   \<and> parsedData (mk_post ''b2'' 20 (JStr ''a1'')) \<noteq> PNull
   \<and> parsedData (mk_post ''c3'' 30 JUndefined) \<noteq> PNull
   \<and> parent_in_model JNull \<and> parent_in_model (JStr ''a1'') \<and> parent_in_model JUndefined
   \<and> getRootPosts [mk_post ''a1'' 10 JNull, mk_post ''b2'' 20 (JStr ''a1''), mk_post ''c3'' 30 JUndefined]
       = Inr [mk_post ''a1'' 10 JNull, mk_post ''c3'' 30 JUndefined]
   \<and> getReplies (JStr ''a1'')
         [mk_post ''a1'' 10 JNull, mk_post ''b2'' 20 (JStr ''a1''), mk_post ''c3'' 30 JUndefined]
       = Inr [mk_post ''b2'' 20 (JStr ''a1'')]"
proof -
  let ?ps = "[mk_post ''a1'' 10 JNull, mk_post ''b2'' 20 (JStr ''a1''), mk_post ''c3'' 30 JUndefined]"
  have n: "parsedData (mk_post ''a1'' 10 JNull) \<noteq> PNull"
    "parsedData (mk_post ''b2'' 20 (JStr ''a1'')) \<noteq> PNull"
    "parsedData (mk_post ''c3'' 30 JUndefined) \<noteq> PNull"
    by (simp_all add: mk_post_def)
  have m: "parent_in_model JNull" "parent_in_model (JStr ''a1'')" "parent_in_model JUndefined"
    by (simp_all add: parent_in_model_def)
  have all: "\<forall>p \<in> set ?ps. parsedData p \<noteq> PNull"
    using n by simp
  have allm: "\<forall>p \<in> set ?ps. parent_in_model (pd_parent (parsedData p))"
    using m by (simp add: mk_post_def)
  note T = getRootPosts_getReplies_exact [OF all, of "JStr ''a1''"]
  have "getRootPosts ?ps =
      Inr (filter (\<lambda>p. pd_parent (parsedData p) = JUndefined \<or> pd_parent (parsedData p) = JNull) ?ps)"
    using T allm by blast
  moreover have "getReplies (JStr ''a1'') ?ps
      = Inr (filter (\<lambda>p. pd_parent (parsedData p) = JStr ''a1'') ?ps)"
    using T by blast
  ultimately show ?thesis
    using n m by (simp add: mk_post_def)
qed

section \<open>Deduplication\<close>

lemma map_set_keys:
  "map fst (map_set m k v) = (if k \<in> set (map fst m) then map fst m else map fst m @ [k])"
  by (induction m k v rule: map_set.induct) auto

lemma map_set_entries: "set (map_set m k v) \<subseteq> insert (k, v) (set m)"
  by (induction m k v rule: map_set.induct) auto

lemma fold_map_set_keys:
  "distinct (map fst m) \<Longrightarrow>
   distinct (map fst (fold (\<lambda>(k, v) m. map_set m k v) es m))
   \<and> set (map fst (fold (\<lambda>(k, v) m. map_set m k v) es m)) = set (map fst m) \<union> set (map fst es)"
proof (induction es arbitrary: m)
  case Nil
  then show ?case by simp
next
  case (Cons e es)
  obtain k v where e: "e = (k, v)" by (cases e)
  have d: "distinct (map fst (map_set m k v))"
    using Cons.prems by (simp add: map_set_keys)
  have s: "set (map fst (map_set m k v)) = insert k (set (map fst m))"
    by (auto simp: map_set_keys)
  show ?case
    using Cons.IH [OF d] s by (simp add: e)
qed

lemma fold_map_set_entries:
  "set (fold (\<lambda>(k, v) m. map_set m k v) es m) \<subseteq> set m \<union> set es"
proof (induction es arbitrary: m)
  case Nil
  show ?case by simp
next
  case (Cons e es)
  obtain k v where e: "e = (k, v)" by (cases e)
  show ?case
    using Cons.IH [of "map_set m k v"] map_set_entries [of m k v] by (auto simp: e)
qed

lemma new_Map_entries: "set (new_Map es) \<subseteq> set es"
  using fold_map_set_entries [of es "[]"] by (simp add: new_Map_def)

lemma uniquePosts_ids:
  "map post_id (uniquePosts ps) = map fst (new_Map (map (\<lambda>post. (post_id post, post)) ps))"
proof -
  have "\<forall>e \<in> set (new_Map (map (\<lambda>post. (post_id post, post)) ps)). post_id (snd e) = fst e"
    using new_Map_entries [of "map (\<lambda>post. (post_id post, post)) ps"] by auto
  then show ?thesis
    by (simp add: uniquePosts_def)
qed

lemma uniquePosts_distinct:
  "distinct (map post_id (uniquePosts ps))
   \<and> set (map post_id (uniquePosts ps)) = set (map post_id ps)
   \<and> length (uniquePosts ps) = card (set (map post_id ps))
   \<and> set (uniquePosts ps) \<subseteq> set ps"
proof -
  let ?es = "map (\<lambda>post. (post_id post, post)) ps"
  have k: "distinct (map fst (new_Map ?es)) \<and> set (map fst (new_Map ?es)) = set (map fst ?es)"
    using fold_map_set_keys [of "[]" ?es] by (simp add: new_Map_def)
  have d: "distinct (map post_id (uniquePosts ps))"
    using k by (simp only: uniquePosts_ids)
  have s: "set (map post_id (uniquePosts ps)) = set (map post_id ps)"
    using k by (simp only: uniquePosts_ids) (simp add: o_def)
  have "length (uniquePosts ps) = length (map post_id (uniquePosts ps))" by simp
  also have "\<dots> = card (set (map post_id (uniquePosts ps)))"
    using d by (simp only: distinct_card)
  finally have l: "length (uniquePosts ps) = card (set (map post_id ps))"
    by (simp only: s)
  have sub: "set (uniquePosts ps) \<subseteq> set ps"
    using new_Map_entries [of ?es] by (auto simp: uniquePosts_def)
  show ?thesis using d s l sub by (simp only: simp_thms)
qed

section \<open>Sorting by date\<close>

lemma compare_dates_dated:
  "dated a \<Longrightarrow> dated b \<Longrightarrow> compare_dates a b = Inr (Some (date_of b - date_of a))"
  by (auto simp: dated_def date_of_def compare_dates_def split: parsed.splits option.splits)

lemma insert_sorted_dated:
  "dated x \<Longrightarrow> \<forall>p \<in> set ys. dated p \<Longrightarrow>
   insert_sorted compare_dates x ys = Inr (insort_key (\<lambda>p. - date_of p) x ys)"
  by (induction ys) (auto simp: compare_dates_dated)

lemma array_sort_dated:
  "\<forall>p \<in> set xs. dated p \<Longrightarrow> array_sort compare_dates xs = Inr (by_date_desc xs)"
  unfolding by_date_desc_def
  by (induction xs) (auto simp: insert_sorted_dated)

lemma insert_sorted_mset:
  "insert_sorted cmp x ys = Inr zs \<Longrightarrow> mset zs = add_mset x (mset ys)"
  by (induction ys arbitrary: zs) (auto split: sum.splits if_splits)

lemma array_sort_mset: "array_sort cmp xs = Inr ys \<Longrightarrow> mset ys = mset xs"
  by (induction xs arbitrary: ys) (auto split: sum.splits dest: insert_sorted_mset)

lemma by_date_desc_mset: "mset (by_date_desc ps) = mset ps"
  by (simp add: by_date_desc_def)

lemma by_date_desc_sorted: "sorted_wrt (\<lambda>a b. date_of b \<le> date_of a) (by_date_desc ps)"
proof -
  have "sorted (map (\<lambda>p. - date_of p) (by_date_desc ps))"
    by (simp add: by_date_desc_def)
  then show ?thesis
    by (simp add: sorted_map sorted_wrt_iff_nth_less)
qed

lemma by_date_desc_id:
  "sorted (map (\<lambda>p. - date_of p) ps) \<Longrightarrow> by_date_desc ps = ps"
  by (simp add: by_date_desc_def sort_key_id_if_sorted)

lemma sortByDate_dated:
  "\<forall>p \<in> set (arrays s r). dated p \<Longrightarrow>
   sortByDate r s = Inr (r, s\<lparr>arrays := (arrays s)(r := by_date_desc (arrays s r))\<rparr>)"
  by (simp add: sortByDate_def array_sort_dated)

section \<open>The cache while the feed is loaded\<close>

lemma same_cache_refl: "cachedPosts s < fresh s \<Longrightarrow> same_cache s s"
  by (simp add: same_cache_def)

lemma same_cache_trans:
  assumes "same_cache s s1" and "same_cache s1 s2"
  shows "same_cache s s2"
proof -
  let ?c = "cachedPosts s"
  let ?ok = "\<lambda>xs. (\<forall>p \<in> set xs. dated p) \<and> sorted (map (\<lambda>p. - date_of p) xs)"
  have c1: "cachedPosts s1 = ?c" using assms(1) by (simp add: same_cache_def)
  have m: "mset (arrays s2 ?c) = mset (arrays s ?c)"
    using assms c1 by (simp add: same_cache_def)
  have k: "?ok (arrays s ?c) \<longrightarrow> arrays s2 ?c = arrays s ?c"
  proof
    assume ok: "?ok (arrays s ?c)"
    then have e1: "arrays s1 ?c = arrays s ?c"
      using assms(1) by (simp add: same_cache_def)
    then have "?ok (arrays s1 (cachedPosts s1))" using ok c1 by simp
    then have "arrays s2 (cachedPosts s1) = arrays s1 (cachedPosts s1)"
      using assms(2) unfolding same_cache_def by blast
    then show "arrays s2 ?c = arrays s ?c" using e1 c1 by simp
  qed
  show ?thesis
    using assms c1 m k unfolding same_cache_def by simp
qed

lemma alloc_same_cache:
  assumes "cachedPosts s < fresh s" and "alloc xs s = (r, s1)"
  shows "same_cache s s1" and "r = fresh s" and "arrays s1 r = xs" and "fresh s1 = Suc (fresh s)"
    and "pendingPosts s1 = pendingPosts s"
  using assms by (auto simp: alloc_def same_cache_def)

lemma sortByDate_Inr:
  assumes "sortByDate r s = Inr (r', s')"
  shows "r' = r" and "\<exists>ys. s' = s\<lparr>arrays := (arrays s)(r := ys)\<rparr> \<and> mset ys = mset (arrays s r)
            \<and> ((\<forall>p \<in> set (arrays s r). dated p) \<longrightarrow> ys = by_date_desc (arrays s r))"
  using assms
  by (auto simp: sortByDate_def array_sort_dated split: sum.splits dest: array_sort_mset)

lemma set_posts_sorted_cases:
  assumes "set_posts_sorted r a s = (e, a', s')"
  shows "(e \<noteq> None \<and> a' = a \<and> s' = s)
       \<or> (e = None \<and> a' = a\<lparr>posts := r\<rparr>
           \<and> (\<exists>ys. s' = s\<lparr>arrays := (arrays s)(r := ys)\<rparr> \<and> mset ys = mset (arrays s r)
                 \<and> ((\<forall>p \<in> set (arrays s r). dated p) \<longrightarrow> ys = by_date_desc (arrays s r))))"
proof (cases "sortByDate r s")
  case (Inl err)
  with assms show ?thesis by (auto simp: set_posts_sorted_def)
next
  case (Inr rs)
  obtain r' s1 where rs: "rs = (r', s1)" by (cases rs)
  from sortByDate_Inr [OF Inr [unfolded rs]] assms Inr rs show ?thesis
    by (auto simp: set_posts_sorted_def)
qed

lemma set_posts_sorted_same_cache:
  assumes "cachedPosts s < fresh s" and "set_posts_sorted r a s = (e, a', s')"
  shows "same_cache s s'" and "fresh s' = fresh s" and "pendingPosts s' = pendingPosts s"
proof -
  from set_posts_sorted_cases [OF assms(2)]
  consider "s' = s"
    | ys where "s' = s\<lparr>arrays := (arrays s)(r := ys)\<rparr>" "mset ys = mset (arrays s r)"
        "(\<forall>p \<in> set (arrays s r). dated p) \<longrightarrow> ys = by_date_desc (arrays s r)"
    by blast
  then have "same_cache s s' \<and> fresh s' = fresh s \<and> pendingPosts s' = pendingPosts s"
  proof cases
    case 1
    then show ?thesis using assms(1) by (simp add: same_cache_refl)
  next
    case 2
    then show ?thesis using assms(1)
      by (auto simp: same_cache_def by_date_desc_id)
  qed
  then show "same_cache s s'" and "fresh s' = fresh s" and "pendingPosts s' = pendingPosts s"
    by simp_all
qed

lemma merge_pending_same_cache:
  assumes "cachedPosts s < fresh s" and "merge_pending a s = (e, a', s')"
  shows "same_cache s s'"
proof (cases "length (pendingPosts s) > 0")
  case False
  with assms show ?thesis by (simp add: merge_pending_def same_cache_refl)
next
  case True
  show ?thesis
  proof (cases "map_throw pendingForDisplay (pendingPosts s)")
    case (Inl err)
    with True assms show ?thesis by (simp add: merge_pending_def same_cache_refl)
  next
    case (Inr ds)
    obtain m s1 where al: "alloc (ds @ arrays s (posts a)) s = (m, s1)"
      by (cases "alloc (ds @ arrays s (posts a)) s")
    have sp: "set_posts_sorted m a s1 = (e, a', s')"
      using assms(2) True Inr al by (simp add: merge_pending_def)
    have c1: "same_cache s s1" by (rule alloc_same_cache(1) [OF assms(1) al])
    then have "cachedPosts s1 < fresh s1" by (simp add: same_cache_def)
    then have "same_cache s1 s'" using sp by (rule set_posts_sorted_same_cache(1))
    with c1 show ?thesis by (rule same_cache_trans)
  qed
qed

lemma loadPosts_catch_same_cache:
  assumes "cachedPosts s < fresh s" and "loadPosts_catch rp a s = (e, a', s')"
  shows "same_cache s s'"
proof -
  obtain e1 a1 s1 where sp: "set_posts_sorted (cachedPosts s) a s = (e1, a1, s1)"
    by (cases "set_posts_sorted (cachedPosts s) a s") auto
  have "s' = s1"
    using assms(2) sp
    by (auto simp: loadPosts_catch_def split: option.splits prod.splits)
  then show ?thesis
    using set_posts_sorted_same_cache(1) [OF assms(1) sp] by simp
qed

lemma loadPosts_after_choose_feed:
  assumes "\<not> loading a" and "choose_feed w (a\<lparr>loading := True\<rparr>) s = (e1, a1, s1)"
    and "cachedPosts s1 < fresh s1" and "loadPosts rp w a s = (e, a', s')"
  shows "same_cache s1 s'"
proof -
  obtain e2 a2 s2 where tr: "loadPosts_try rp w (a\<lparr>loading := True\<rparr>) s = (e2, a2, s2)"
    by (cases "loadPosts_try rp w (a\<lparr>loading := True\<rparr>) s") auto
  have t: "same_cache s1 s2"
  proof (cases e1)
    case (Some err)
    with tr assms(2) have "s2 = s1" by (simp add: loadPosts_try_def)
    then show ?thesis using assms(3) by (simp add: same_cache_refl)
  next
    case None
    obtain e3 a3 s3 where mp: "merge_pending a1 s1 = (e3, a3, s3)"
      by (cases "merge_pending a1 s1") auto
    have "s2 = s3"
      using tr assms(2) None mp
      by (auto simp: loadPosts_try_def split: option.splits prod.splits)
    then show ?thesis using merge_pending_same_cache [OF assms(3) mp] by simp
  qed
  show ?thesis
  proof (cases e2)
    case None
    with tr assms(1,4) have "s' = s2" by (simp add: loadPosts_def)
    with t show ?thesis by simp
  next
    case (Some err)
    obtain e4 a4 s4 where ca: "loadPosts_catch rp a2 s2 = (e4, a4, s4)"
      by (cases "loadPosts_catch rp a2 s2") auto
    have s': "s' = s4" using tr assms(1,4) Some ca by (simp add: loadPosts_def)
    have "cachedPosts s2 < fresh s2" using t by (simp add: same_cache_def)
    then have "same_cache s2 s4" using ca by (rule loadPosts_catch_same_cache)
    with t s' show ?thesis by (auto intro: same_cache_trans)
  qed
qed

lemma choose_feed_fallback:
  assumes "cachedPosts s < fresh s"
    and "\<not> isOnline w \<or> uniquePosts (fetch_all w s) = []"
    and "choose_feed w a s = (e1, a1, s1)"
  shows "same_cache s s1"
    and "(\<forall>p \<in> set (arrays s (cachedPosts s)). dated p) \<Longrightarrow>
           e1 = None \<and> a1 = a\<lparr>posts := cachedPosts s\<rparr>
           \<and> arrays s1 (cachedPosts s) = by_date_desc (arrays s (cachedPosts s))"
proof -
  obtain s0 where s0: "same_cache s s0" "arrays s0 (cachedPosts s) = arrays s (cachedPosts s)"
    and sp: "set_posts_sorted (cachedPosts s) a s0 = (e1, a1, s1)"
  proof (cases "isOnline w")
    case False
    show ?thesis
      using that [of s] False assms(1,3) by (simp add: choose_feed_def same_cache_refl)
  next
    case True
    with assms(2) have u: "uniquePosts (fetch_all w s) = []" by simp
    let ?s0 = "snd (alloc [] s)"
    have al: "alloc [] s = (fresh s, ?s0)" by (simp add: alloc_def)
    have "same_cache s ?s0" by (rule alloc_same_cache(1) [OF assms(1) al])
    moreover have "arrays ?s0 (cachedPosts s) = arrays s (cachedPosts s)"
      using assms(1) by (simp add: alloc_def)
    moreover have "set_posts_sorted (cachedPosts s) a ?s0 = (e1, a1, s1)"
      using assms(3) True u by (simp add: choose_feed_def alloc_def)
    ultimately show ?thesis by (rule that)
  qed
  have c0: "cachedPosts s0 < fresh s0" "cachedPosts s0 = cachedPosts s"
    using s0(1) by (simp_all add: same_cache_def)
  have "same_cache s0 s1"
    using set_posts_sorted_same_cache(1) [OF c0(1)] sp by simp
  with s0(1) show "same_cache s s1" by (rule same_cache_trans)
  assume d: "\<forall>p \<in> set (arrays s (cachedPosts s)). dated p"
  then have "sortByDate (cachedPosts s) s0 =
      Inr (cachedPosts s, s0\<lparr>arrays := (arrays s0)(cachedPosts s := by_date_desc (arrays s0 (cachedPosts s)))\<rparr>)"
    using s0(2) by (intro sortByDate_dated) simp
  then show "e1 = None \<and> a1 = a\<lparr>posts := cachedPosts s\<rparr>
           \<and> arrays s1 (cachedPosts s) = by_date_desc (arrays s (cachedPosts s))"
    using sp s0(2) by (auto simp: set_posts_sorted_def)
qed

lemma choose_feed_fresh:
  assumes "cachedPosts s < fresh s" and "isOnline w" and "uniquePosts (fetch_all w s) \<noteq> []"
    and "choose_feed w a s = (e1, a1, s1)"
  shows "quota_ok w \<Longrightarrow>
           cachedPosts s1 < fresh s1
           \<and> arrays s1 (cachedPosts s1) = take 100 (uniquePosts (fetch_all w s))
           \<and> stored_cached s1 = Some (take 100 (uniquePosts (fetch_all w s)))"
    and "\<not> quota_ok w \<Longrightarrow> same_cache s s1"
proof -
  let ?u = "uniquePosts (fetch_all w s)"
  let ?sA = "s\<lparr>arrays := (arrays s)(fresh s := ?u), fresh := Suc (fresh s)\<rparr>"
  let ?sB = "?sA\<lparr>arrays := (arrays ?sA)(Suc (fresh s) := take 100 ?u), fresh := Suc (Suc (fresh s))\<rparr>"
  let ?sC = "?sB\<lparr>stored_cached := Some (take 100 ?u), cachedPosts := Suc (fresh s)\<rparr>"
  have al: "arrays ?sB (Suc (fresh s)) = take 100 ?u"
    by simp
  {
    assume q: "quota_ok w"
    have sp: "set_posts_sorted (fresh s) a ?sC = (e1, a1, s1)"
      using assms(2,3,4) q by (simp add: choose_feed_def alloc_def saveCachedPosts_def Let_def)
    from set_posts_sorted_cases [OF sp]
    obtain ys where "s1 = ?sC \<or> s1 = ?sC\<lparr>arrays := (arrays ?sC)(fresh s := ys)\<rparr>"
      by blast
    then show "cachedPosts s1 < fresh s1
           \<and> arrays s1 (cachedPosts s1) = take 100 (uniquePosts (fetch_all w s))
           \<and> stored_cached s1 = Some (take 100 (uniquePosts (fetch_all w s)))"
      by auto
  }
  {
    assume q: "\<not> quota_ok w"
    have sp: "set_posts_sorted (fresh s) a ?sB = (e1, a1, s1)"
      using assms(2,3,4) q by (simp add: choose_feed_def alloc_def saveCachedPosts_def Let_def)
    from set_posts_sorted_cases [OF sp]
    obtain ys where "s1 = ?sB \<or> s1 = ?sB\<lparr>arrays := (arrays ?sB)(fresh s := ys)\<rparr>"
      by blast
    then show "same_cache s s1"
      using assms(1) by (auto simp: same_cache_def)
  }
qed

lemma choose_feed_unique:
  assumes "isOnline w" and "uniquePosts (fetch_all w s) \<noteq> []"
    and "choose_feed w a s = (None, a1, s1)"
  shows "mset (arrays s1 (posts a1)) = mset (uniquePosts (fetch_all w s))"
proof -
  let ?u = "uniquePosts (fetch_all w s)"
  let ?sA = "s\<lparr>arrays := (arrays s)(fresh s := ?u), fresh := Suc (fresh s)\<rparr>"
  have sp: "set_posts_sorted (fresh s) a (saveCachedPosts w (fresh s) ?sA) = (None, a1, s1)"
    using assms by (simp add: choose_feed_def alloc_def)
  have u: "arrays (saveCachedPosts w (fresh s) ?sA) (fresh s) = ?u"
    by (simp add: saveCachedPosts_def alloc_def)
  from set_posts_sorted_cases [OF sp] u show ?thesis
    by auto
qed

lemmas run_defs =
  loadPosts_def loadPosts_try_def loadPosts_catch_def choose_feed_def fetch_all_def
  fetchPosts_def fetchPosts_try_def alloc_def uniquePosts_def new_Map_def set_posts_sorted_def
  sortByDate_def compare_dates_def merge_pending_def renderPosts_def getRootPosts_def
  saveCachedPosts_def with_parsedData_def pendingForDisplay_def target_def outbox_url_def
  response_ok_def Let_def

lemma by_date_desc_keeps: "set (by_date_desc ps) = set ps"
  "sorted (map (\<lambda>p. - date_of p) (by_date_desc ps))"
  by (simp_all add: by_date_desc_def)

text \<open>
  Claim C6. The deduplicated posts hold one post for each identifier among the fetched
  posts: their identifiers are distinct, they are the identifiers of the fetched posts,
  their number is the number of distinct identifiers, and each of them is a fetched post.
  When something was fetched and the sort succeeds, the feed that \<open>this.posts\<close> refers
  to is these posts in another order, so it has one post for each identifier fetched.
\<close>

theorem uniquePosts_one_per_id:
  "distinct (map post_id (uniquePosts ps))
   \<and> set (map post_id (uniquePosts ps)) = set (map post_id ps)
   \<and> length (uniquePosts ps) = card (set (map post_id ps))
   \<and> set (uniquePosts ps) \<subseteq> set ps
   \<and> (isOnline w \<and> uniquePosts (fetch_all w s) \<noteq> [] \<and> choose_feed w a s = (None, a1, s1) \<longrightarrow>
        distinct (map post_id (arrays s1 (posts a1)))
        \<and> set (map post_id (arrays s1 (posts a1))) = set (map post_id (fetch_all w s))
        \<and> length (arrays s1 (posts a1)) = card (set (map post_id (fetch_all w s))))"
proof -
  have A: "distinct (map post_id (uniquePosts ps))
   \<and> set (map post_id (uniquePosts ps)) = set (map post_id ps)
   \<and> length (uniquePosts ps) = card (set (map post_id ps))
   \<and> set (uniquePosts ps) \<subseteq> set ps" for ps
    by (rule uniquePosts_distinct)
  have B: "distinct (map post_id (arrays s1 (posts a1)))
        \<and> set (map post_id (arrays s1 (posts a1))) = set (map post_id (fetch_all w s))
        \<and> length (arrays s1 (posts a1)) = card (set (map post_id (fetch_all w s)))"
    if h: "isOnline w \<and> uniquePosts (fetch_all w s) \<noteq> [] \<and> choose_feed w a s = (None, a1, s1)"
  proof -
    let ?u = "uniquePosts (fetch_all w s)"
    let ?f = "arrays s1 (posts a1)"
    have m: "mset ?f = mset ?u"
      using h choose_feed_unique [of w s a a1 s1] by blast
    then have mm: "mset (map post_id ?f) = mset (map post_id ?u)"
      by simp
    have "distinct (map post_id ?f)"
      using mset_eq_imp_distinct_iff [OF mm] A [of "fetch_all w s"] by simp
    moreover have "set (map post_id ?f) = set (map post_id (fetch_all w s))"
      using mset_eq_setD [OF mm] A [of "fetch_all w s"] by simp
    moreover have "length ?f = card (set (map post_id (fetch_all w s)))"
      using mset_eq_length [OF m] A [of "fetch_all w s"] by simp
    ultimately show ?thesis by simp
  qed
  show ?thesis using A [of ps] B by blast
qed

theorem uniquePosts_one_per_id_witness:
  "isOnline feed_world
   \<and> fetch_all feed_world (state0\<lparr>discoveredCows := [''http://b:3000'']\<rparr>)
       = [mk_post ''a1'' 10 JNull, mk_post ''a1'' 10 JNull, mk_post ''b2'' 20 (JStr ''a1'')]
   \<and> uniquePosts (fetch_all feed_world (state0\<lparr>discoveredCows := [''http://b:3000'']\<rparr>)) \<noteq> []
   \<and> fst (choose_feed feed_world app0 (state0\<lparr>discoveredCows := [''http://b:3000'']\<rparr>)) = None
   \<and> length (arrays
         (snd (snd (choose_feed feed_world app0 (state0\<lparr>discoveredCows := [''http://b:3000'']\<rparr>))))
         (posts (fst (snd (choose_feed feed_world app0
                             (state0\<lparr>discoveredCows := [''http://b:3000'']\<rparr>)))))) = 2"
proof -
  let ?s = "state0\<lparr>discoveredCows := [''http://b:3000'']\<rparr>"
  have on: "isOnline feed_world"
    by (simp add: feed_world_def deaf_world_def)
  have fa: "fetch_all feed_world ?s
       = [mk_post ''a1'' 10 JNull, mk_post ''a1'' 10 JNull, mk_post ''b2'' 20 (JStr ''a1'')]"
    by (simp add: run_defs feed_world_def deaf_world_def state0_def env0_def env1_def mk_post_def)
  have u: "uniquePosts (fetch_all feed_world ?s) \<noteq> []"
    by (simp add: fa uniquePosts_def new_Map_def mk_post_def)
  have e: "fst (choose_feed feed_world app0 ?s) = None"
    by (simp add: run_defs feed_world_def deaf_world_def state0_def env0_def env1_def app0_def)
  then obtain a1 s1 where cf: "choose_feed feed_world app0 ?s = (None, a1, s1)"
    by (cases "choose_feed feed_world app0 ?s") auto
  have "length (arrays s1 (posts a1)) = card (set (map post_id (fetch_all feed_world ?s)))"
    using uniquePosts_one_per_id [of "[]" feed_world ?s app0 a1 s1] on u cf by blast
  also have "\<dots> = 2"
    by (simp add: fa mk_post_def)
  finally show ?thesis
    using on fa u e cf by simp
qed

lemma saveCachedPosts_quota:
  assumes "quota_ok w"
  shows "arrays (saveCachedPosts w r s) (cachedPosts (saveCachedPosts w r s)) = take 100 (arrays s r)"
    and "stored_cached (saveCachedPosts w r s) = Some (take 100 (arrays s r))"
  using assms by (simp_all add: saveCachedPosts_def alloc_def)

lemma saveCachedPosts_no_quota:
  assumes "\<not> quota_ok w" and "cachedPosts s < fresh s"
  shows "cachedPosts (saveCachedPosts w r s) = cachedPosts s"
    and "arrays (saveCachedPosts w r s) (cachedPosts s) = arrays s (cachedPosts s)"
    and "stored_cached (saveCachedPosts w r s) = stored_cached s"
  using assms by (simp_all add: saveCachedPosts_def alloc_def)

lemma loadPosts_cache:
  assumes "\<not> loading a" and "cachedPosts s < fresh s"
  shows "isOnline w \<and> uniquePosts (fetch_all w s) \<noteq> [] \<and> quota_ok w \<Longrightarrow>
           stored_cached (snd (snd (loadPosts rp w a s))) = Some (take 100 (uniquePosts (fetch_all w s)))
           \<and> mset (arrays (snd (snd (loadPosts rp w a s))) (cachedPosts (snd (snd (loadPosts rp w a s)))))
               = mset (take 100 (uniquePosts (fetch_all w s)))"
    and "\<not> (isOnline w \<and> uniquePosts (fetch_all w s) \<noteq> [] \<and> quota_ok w) \<Longrightarrow>
           same_cache s (snd (snd (loadPosts rp w a s)))"
proof -
  obtain e1 a1 s1 where cf: "choose_feed w (a\<lparr>loading := True\<rparr>) s = (e1, a1, s1)"
    by (cases "choose_feed w (a\<lparr>loading := True\<rparr>) s") auto
  obtain e a' s' where lp: "loadPosts rp w a s = (e, a', s')"
    by (cases "loadPosts rp w a s") auto
  {
    assume h: "isOnline w \<and> uniquePosts (fetch_all w s) \<noteq> [] \<and> quota_ok w"
    then have s1: "cachedPosts s1 < fresh s1"
      "arrays s1 (cachedPosts s1) = take 100 (uniquePosts (fetch_all w s))"
      "stored_cached s1 = Some (take 100 (uniquePosts (fetch_all w s)))"
      using choose_feed_fresh(1) [OF assms(2) _ _ cf] by simp_all
    have "same_cache s1 s'"
      by (rule loadPosts_after_choose_feed [OF assms(1) cf s1(1) lp])
    then show "stored_cached (snd (snd (loadPosts rp w a s))) = Some (take 100 (uniquePosts (fetch_all w s)))
           \<and> mset (arrays (snd (snd (loadPosts rp w a s))) (cachedPosts (snd (snd (loadPosts rp w a s)))))
               = mset (take 100 (uniquePosts (fetch_all w s)))"
      using s1 lp by (simp add: same_cache_def)
  }
  {
    assume h: "\<not> (isOnline w \<and> uniquePosts (fetch_all w s) \<noteq> [] \<and> quota_ok w)"
    have c1: "same_cache s s1"
    proof (cases "\<not> isOnline w \<or> uniquePosts (fetch_all w s) = []")
      case True
      then show ?thesis by (rule choose_feed_fallback(1) [OF assms(2) _ cf])
    next
      case False
      with h have "\<not> quota_ok w" by blast
      with False show ?thesis using choose_feed_fresh(2) [OF assms(2) _ _ cf] by blast
    qed
    then have "cachedPosts s1 < fresh s1" by (simp add: same_cache_def)
    then have "same_cache s1 s'"
      by (rule loadPosts_after_choose_feed [OF assms(1) cf _ lp])
    with c1 have "same_cache s s'" by (rule same_cache_trans)
    then show "same_cache s (snd (snd (loadPosts rp w a s)))" using lp by simp
  }
qed

text \<open>
  Claim C9, as amended. \<open>saveCachedPosts\<close> stores the first 100 posts of the array it
  is given, in \<open>localStorage\<close> and as the cache, and changes neither when the write is
  refused. \<open>loadPosts\<close> overwrites the snapshot only when the device is online and the
  deduplicated fetch result is not empty; otherwise the stored snapshot is the one it
  found and the cache is the same array with the same entries, which \<open>sortByDate\<close> may
  have put in another order. A cache of at most 100 entries stays one.
\<close>

theorem cache_bounded_and_kept:
  assumes "\<not> loading a" and "cachedPosts s < fresh s"
  shows "(quota_ok w \<longrightarrow>
            arrays (saveCachedPosts w r s) (cachedPosts (saveCachedPosts w r s)) = take 100 (arrays s r)
            \<and> stored_cached (saveCachedPosts w r s) = Some (take 100 (arrays s r))
            \<and> length (arrays (saveCachedPosts w r s) (cachedPosts (saveCachedPosts w r s))) \<le> 100)
       \<and> (\<not> quota_ok w \<longrightarrow>
            cachedPosts (saveCachedPosts w r s) = cachedPosts s
            \<and> arrays (saveCachedPosts w r s) (cachedPosts s) = arrays s (cachedPosts s)
            \<and> stored_cached (saveCachedPosts w r s) = stored_cached s)
       \<and> (isOnline w \<and> uniquePosts (fetch_all w s) \<noteq> [] \<and> quota_ok w \<longrightarrow>
            stored_cached (snd (snd (loadPosts rp w a s))) = Some (take 100 (uniquePosts (fetch_all w s)))
            \<and> mset (arrays (snd (snd (loadPosts rp w a s))) (cachedPosts (snd (snd (loadPosts rp w a s)))))
                = mset (take 100 (uniquePosts (fetch_all w s))))
       \<and> (\<not> (isOnline w \<and> uniquePosts (fetch_all w s) \<noteq> [] \<and> quota_ok w) \<longrightarrow>
            stored_cached (snd (snd (loadPosts rp w a s))) = stored_cached s
            \<and> cachedPosts (snd (snd (loadPosts rp w a s))) = cachedPosts s
            \<and> mset (arrays (snd (snd (loadPosts rp w a s))) (cachedPosts s))
                = mset (arrays s (cachedPosts s)))
       \<and> (length (arrays s (cachedPosts s)) \<le> 100 \<longrightarrow>
            length (arrays (snd (snd (loadPosts rp w a s))) (cachedPosts (snd (snd (loadPosts rp w a s))))) \<le> 100)"
proof -
  let ?s' = "snd (snd (loadPosts rp w a s))"
  let ?u = "uniquePosts (fetch_all w s)"
  let ?new = "isOnline w \<and> ?u \<noteq> [] \<and> quota_ok w"
  have A: "quota_ok w \<longrightarrow>
            arrays (saveCachedPosts w r s) (cachedPosts (saveCachedPosts w r s)) = take 100 (arrays s r)
            \<and> stored_cached (saveCachedPosts w r s) = Some (take 100 (arrays s r))
            \<and> length (arrays (saveCachedPosts w r s) (cachedPosts (saveCachedPosts w r s))) \<le> 100"
    by (simp add: saveCachedPosts_quota)
  have B: "\<not> quota_ok w \<longrightarrow>
            cachedPosts (saveCachedPosts w r s) = cachedPosts s
            \<and> arrays (saveCachedPosts w r s) (cachedPosts s) = arrays s (cachedPosts s)
            \<and> stored_cached (saveCachedPosts w r s) = stored_cached s"
    using assms(2) by (simp add: saveCachedPosts_no_quota)
  have C: "?new \<longrightarrow> stored_cached ?s' = Some (take 100 ?u)
            \<and> mset (arrays ?s' (cachedPosts ?s')) = mset (take 100 ?u)"
    using loadPosts_cache(1) [OF assms] by blast
  have D: "\<not> ?new \<longrightarrow> stored_cached ?s' = stored_cached s \<and> cachedPosts ?s' = cachedPosts s
            \<and> mset (arrays ?s' (cachedPosts s)) = mset (arrays s (cachedPosts s))"
    using loadPosts_cache(2) [OF assms, of w rp] by (simp add: same_cache_def)
  have E: "length (arrays s (cachedPosts s)) \<le> 100 \<longrightarrow> length (arrays ?s' (cachedPosts ?s')) \<le> 100"
  proof (cases ?new)
    case True
    with C have "mset (arrays ?s' (cachedPosts ?s')) = mset (take 100 ?u)" by blast
    then have "length (arrays ?s' (cachedPosts ?s')) = length (take 100 ?u)"
      by (rule mset_eq_length)
    then show ?thesis by simp
  next
    case False
    with D have "cachedPosts ?s' = cachedPosts s"
      and "mset (arrays ?s' (cachedPosts s)) = mset (arrays s (cachedPosts s))" by blast+
    then have "length (arrays ?s' (cachedPosts ?s')) = length (arrays s (cachedPosts s))"
      using mset_eq_length by fastforce
    then show ?thesis by simp
  qed
  show ?thesis
    using A B C D E by (intro conjI)
qed

theorem cache_bounded_and_kept_witness:
  "\<not> loading app0
   \<and> cachedPosts (state0\<lparr>discoveredCows := [''http://b:3000'']\<rparr>)
       < fresh (state0\<lparr>discoveredCows := [''http://b:3000'']\<rparr>)
   \<and> isOnline feed_world \<and> quota_ok feed_world
   \<and> uniquePosts (fetch_all feed_world (state0\<lparr>discoveredCows := [''http://b:3000'']\<rparr>))
       = [mk_post ''a1'' 10 JNull, mk_post ''b2'' 20 (JStr ''a1'')]
   \<and> stored_cached (snd (snd (loadPosts render_ok feed_world app0
           (state0\<lparr>discoveredCows := [''http://b:3000'']\<rparr>))))
       = Some [mk_post ''a1'' 10 JNull, mk_post ''b2'' 20 (JStr ''a1'')]"
proof -
  let ?s = "state0\<lparr>discoveredCows := [''http://b:3000'']\<rparr>"
  have a: "\<not> loading app0" by (simp add: app0_def)
  have b: "cachedPosts ?s < fresh ?s" by (simp add: state0_def)
  have c: "isOnline feed_world" "quota_ok feed_world"
    by (simp_all add: feed_world_def deaf_world_def)
  have u: "uniquePosts (fetch_all feed_world ?s)
       = [mk_post ''a1'' 10 JNull, mk_post ''b2'' 20 (JStr ''a1'')]"
    by (simp add: run_defs feed_world_def deaf_world_def state0_def env0_def env1_def mk_post_def)
  show ?thesis
    using cache_bounded_and_kept [OF a b, of feed_world 0 render_ok] a b c u by simp
qed

text \<open>
  The claim C9 as it was stated fails: with nothing fetched, the cache that held the
  older post first holds the newer post first after \<open>loadPosts\<close>.
\<close>

theorem cache_reordered_counterexample:
  "uniquePosts (fetch_all deaf_world cache_state) = []
   \<and> arrays cache_state (cachedPosts cache_state)
       = [mk_post ''a1'' 10 JNull, mk_post ''b2'' 20 JNull]
   \<and> arrays (snd (snd (loadPosts render_ok deaf_world app0 cache_state)))
        (cachedPosts (snd (snd (loadPosts render_ok deaf_world app0 cache_state))))
       = [mk_post ''b2'' 20 JNull, mk_post ''a1'' 10 JNull]
   \<and> arrays (snd (snd (loadPosts render_ok deaf_world app0 cache_state)))
        (cachedPosts (snd (snd (loadPosts render_ok deaf_world app0 cache_state))))
       \<noteq> arrays cache_state (cachedPosts cache_state)"
  by (simp add: run_defs deaf_world_def cache_state_def state0_def app0_def mk_post_def render_ok_def)

text \<open>
  Claim C10. When \<open>sortByDate\<close> returns, it returns the reference it was given; no
  array is allocated, and the store differs at that reference only, where the array
  holds the same posts in another order. On posts with valid dates it does return, and
  the order is latest first, posts of equal date in the order they had. So when
  \<open>loadPosts\<close> falls back to the cache (offline, or nothing fetched), \<open>this.posts\<close> is
  the cache array and the cache is in the new order, also when \<open>loadPosts\<close> has
  returned.
\<close>

theorem sortByDate_in_place:
  "(\<forall>r' s'. sortByDate r s = Inr (r', s') \<longrightarrow>
      r' = r \<and> fresh s' = fresh s
      \<and> (\<exists>ys. s' = s\<lparr>arrays := (arrays s)(r := ys)\<rparr> \<and> mset ys = mset (arrays s r)))
   \<and> ((\<forall>p \<in> set (arrays s r). dated p) \<longrightarrow>
        sortByDate r s = Inr (r, s\<lparr>arrays := (arrays s)(r := by_date_desc (arrays s r))\<rparr>)
        \<and> mset (by_date_desc (arrays s r)) = mset (arrays s r)
        \<and> sorted_wrt (\<lambda>a b. date_of b \<le> date_of a) (by_date_desc (arrays s r)))
   \<and> ((\<forall>p \<in> set (arrays s (cachedPosts s)). dated p) \<and> cachedPosts s < fresh s
        \<and> (\<not> isOnline w \<or> uniquePosts (fetch_all w s) = []) \<longrightarrow>
        fst (snd (choose_feed w a s)) = a\<lparr>posts := cachedPosts s\<rparr>
        \<and> arrays (snd (snd (choose_feed w a s))) (cachedPosts s)
            = by_date_desc (arrays s (cachedPosts s))
        \<and> (\<not> loading a \<longrightarrow>
             cachedPosts (snd (snd (loadPosts rp w a s))) = cachedPosts s
             \<and> arrays (snd (snd (loadPosts rp w a s))) (cachedPosts s)
                 = by_date_desc (arrays s (cachedPosts s))))"
proof (intro conjI allI impI)
  fix r' s'
  assume ok: "sortByDate r s = Inr (r', s')"
  show "r' = r" by (rule sortByDate_Inr(1) [OF ok])
  from sortByDate_Inr(2) [OF ok]
  obtain ys where ys: "s' = s\<lparr>arrays := (arrays s)(r := ys)\<rparr>" "mset ys = mset (arrays s r)"
    by blast
  then show "fresh s' = fresh s" by simp
  from ys show "\<exists>ys. s' = s\<lparr>arrays := (arrays s)(r := ys)\<rparr> \<and> mset ys = mset (arrays s r)"
    by blast
next
  assume "\<forall>p \<in> set (arrays s r). dated p"
  then show "sortByDate r s = Inr (r, s\<lparr>arrays := (arrays s)(r := by_date_desc (arrays s r))\<rparr>)"
    by (rule sortByDate_dated)
next
  show "mset (by_date_desc (arrays s r)) = mset (arrays s r)"
    by (rule by_date_desc_mset)
next
  show "sorted_wrt (\<lambda>a b. date_of b \<le> date_of a) (by_date_desc (arrays s r))"
    by (rule by_date_desc_sorted)
next
  assume h: "(\<forall>p \<in> set (arrays s (cachedPosts s)). dated p) \<and> cachedPosts s < fresh s
        \<and> (\<not> isOnline w \<or> uniquePosts (fetch_all w s) = [])"
  then have d: "\<forall>p \<in> set (arrays s (cachedPosts s)). dated p"
    and lt: "cachedPosts s < fresh s"
    and fb: "\<not> isOnline w \<or> uniquePosts (fetch_all w s) = []"
    by simp_all
  obtain e1 a1 s1 where cf: "choose_feed w a s = (e1, a1, s1)"
    by (cases "choose_feed w a s") auto
  from choose_feed_fallback(2) [OF lt fb cf d] cf
  show "fst (snd (choose_feed w a s)) = a\<lparr>posts := cachedPosts s\<rparr>"
    and "arrays (snd (snd (choose_feed w a s))) (cachedPosts s)
                = by_date_desc (arrays s (cachedPosts s))"
    by simp_all
  assume nl: "\<not> loading a"
  obtain e2 a2 s2 where cf2: "choose_feed w (a\<lparr>loading := True\<rparr>) s = (e2, a2, s2)"
    by (cases "choose_feed w (a\<lparr>loading := True\<rparr>) s") auto
  obtain e a' s' where lp: "loadPosts rp w a s = (e, a', s')"
    by (cases "loadPosts rp w a s") auto
  have c2: "same_cache s s2" by (rule choose_feed_fallback(1) [OF lt fb cf2])
  have a2: "arrays s2 (cachedPosts s) = by_date_desc (arrays s (cachedPosts s))"
    using choose_feed_fallback(2) [OF lt fb cf2 d] by simp
  have k2: "cachedPosts s2 = cachedPosts s" "cachedPosts s2 < fresh s2"
    using c2 by (simp_all add: same_cache_def)
  have c': "same_cache s2 s'"
    by (rule loadPosts_after_choose_feed [OF nl cf2 k2(2) lp])
  have "(\<forall>p \<in> set (arrays s2 (cachedPosts s2)). dated p)
        \<and> sorted (map (\<lambda>p. - date_of p) (arrays s2 (cachedPosts s2)))"
    using d by (simp add: k2(1) a2 by_date_desc_keeps)
  then have "arrays s' (cachedPosts s2) = arrays s2 (cachedPosts s2)"
    using c' unfolding same_cache_def by blast
  moreover have "cachedPosts s' = cachedPosts s2"
    using c' by (simp add: same_cache_def)
  ultimately show "cachedPosts (snd (snd (loadPosts rp w a s))) = cachedPosts s"
    and "arrays (snd (snd (loadPosts rp w a s))) (cachedPosts s)
                     = by_date_desc (arrays s (cachedPosts s))"
    using lp k2(1) a2 by simp_all
qed

theorem sortByDate_in_place_witness:
  "dated (mk_post ''a1'' 10 JNull) \<and> dated (mk_post ''b2'' 20 JNull)
   \<and> cachedPosts cache_state < fresh cache_state \<and> \<not> isOnline offline_world \<and> \<not> loading app0
   \<and> sortByDate 0 cache_state
       = Inr (0, cache_state\<lparr>arrays := (arrays cache_state)
                  (0 := [mk_post ''b2'' 20 JNull, mk_post ''a1'' 10 JNull])\<rparr>)
   \<and> posts (fst (snd (choose_feed offline_world app0 cache_state))) = cachedPosts cache_state
   \<and> arrays (snd (snd (loadPosts render_ok offline_world app0 cache_state))) (cachedPosts cache_state)
       = [mk_post ''b2'' 20 JNull, mk_post ''a1'' 10 JNull]"
proof -
  have d: "dated (mk_post ''a1'' 10 JNull)" "dated (mk_post ''b2'' 20 JNull)"
    by (simp_all add: dated_def mk_post_def)
  have c0: "cachedPosts cache_state = 0"
    by (simp add: cache_state_def state0_def)
  have all: "\<forall>p \<in> set (arrays cache_state 0). dated p"
    using d by (simp add: cache_state_def)
  then have all': "\<forall>p \<in> set (arrays cache_state (cachedPosts cache_state)). dated p"
    by (simp only: c0)
  have srt: "by_date_desc (arrays cache_state 0) = [mk_post ''b2'' 20 JNull, mk_post ''a1'' 10 JNull]"
    by (simp add: by_date_desc_def cache_state_def date_of_def mk_post_def)
  have pre: "cachedPosts cache_state < fresh cache_state" "\<not> isOnline offline_world"
    "\<not> loading app0"
    by (simp_all add: cache_state_def state0_def offline_world_def deaf_world_def app0_def)
  note T = sortByDate_in_place [of 0 cache_state offline_world app0 render_ok]
  have "sortByDate 0 cache_state =
          Inr (0, cache_state\<lparr>arrays := (arrays cache_state)(0 := by_date_desc (arrays cache_state 0))\<rparr>)"
    using T all by blast
  moreover have "fst (snd (choose_feed offline_world app0 cache_state))
          = app0\<lparr>posts := cachedPosts cache_state\<rparr>
      \<and> arrays (snd (snd (loadPosts render_ok offline_world app0 cache_state))) (cachedPosts cache_state)
          = by_date_desc (arrays cache_state (cachedPosts cache_state))"
    using T all' pre by blast
  ultimately show ?thesis
    using d pre srt c0 by simp
qed

section \<open>Errors while the feed is loaded\<close>

lemma map_throw_malformed:
  "list_ex malformed els \<Longrightarrow> \<exists>e. map_throw with_parsedData els = Inl e"
proof (induction els)
  case Nil
  then show ?case by simp
next
  case (Cons el els)
  show ?case
  proof (cases "with_parsedData el")
    case (Inl e)
    then show ?thesis by simp
  next
    case (Inr p)
    then have "\<not> malformed el"
      by (auto simp: malformed_def with_parsedData_def split: option.splits data.splits)
    with Cons obtain e where "map_throw with_parsedData els = Inl e" by auto
    with Inr show ?thesis by simp
  qed
qed

lemma fetchPosts_absorbs:
  assumes "fetch_fails (source w s cowUrl)"
  shows "fetchPosts w s cowUrl = []"
proof (cases "source w s cowUrl")
  case (Response st body)
  show ?thesis
  proof (cases "response_ok st")
    case False
    with Response show ?thesis
      by (simp add: fetchPosts_def fetchPosts_try_def source_def)
  next
    case True
    show ?thesis
    proof (cases body)
      case (OutboxArray els)
      with assms Response True have "list_ex malformed els"
        by (simp add: fetch_fails_def)
      then obtain e where "map_throw with_parsedData els = Inl e"
        using map_throw_malformed by blast
      with Response True OutboxArray show ?thesis
        by (simp add: fetchPosts_def fetchPosts_try_def source_def)
    qed (use Response True in \<open>simp_all add: fetchPosts_def fetchPosts_try_def source_def\<close>)
  qed
qed (simp_all add: fetchPosts_def fetchPosts_try_def source_def)

lemma fetch_all_absorbs:
  assumes "\<forall>c \<in> set (None # map Some (discoveredCows s)). fetch_fails (source w s c)"
  shows "fetch_all w s = []"
proof -
  have "fetchPosts w s None = []"
    using assms by (simp add: fetchPosts_absorbs)
  moreover have "\<forall>cow \<in> set (discoveredCows s). fetchPosts w s (Some cow) = []"
    using assms by (simp add: fetchPosts_absorbs)
  ultimately show ?thesis
    by (simp add: fetch_all_def)
qed

lemma set_posts_sorted_errors:
  "set_posts_sorted r a s = (e, a', s') \<Longrightarrow> errors a' = errors a \<and> loading a' = loading a"
  by (auto simp: set_posts_sorted_def split: sum.splits prod.splits)

lemma choose_feed_errors:
  "choose_feed w a s = (e, a', s') \<Longrightarrow> errors a' = errors a \<and> loading a' = loading a"
  by (auto simp: choose_feed_def Let_def split: if_splits prod.splits dest: set_posts_sorted_errors)

lemma merge_pending_errors:
  "merge_pending a s = (e, a', s') \<Longrightarrow> errors a' = errors a \<and> loading a' = loading a"
  by (auto simp: merge_pending_def Let_def split: if_splits sum.splits prod.splits
        dest: set_posts_sorted_errors)

lemma renderPosts_keeps:
  "renderPosts rp a s = (e, a') \<Longrightarrow>
     errors a' = errors a \<and> loading a' = loading a \<and> posts a' = posts a"
  by (auto simp: renderPosts_def split: if_splits sum.splits)

lemma loadPosts_try_errors:
  assumes "loadPosts_try rp w a s = (e, a', s')"
  shows "errors a' = errors a"
proof -
  obtain e1 a1 s1 where cf: "choose_feed w a s = (e1, a1, s1)"
    by (cases "choose_feed w a s") auto
  obtain e2 a2 s2 where mp: "merge_pending a1 s1 = (e2, a2, s2)"
    by (cases "merge_pending a1 s1") auto
  obtain e3 a3 where rn: "renderPosts rp a2 s2 = (e3, a3)"
    by (cases "renderPosts rp a2 s2")
  have "a' = a1 \<or> a' = a2 \<or> a' = a3"
    using assms cf mp rn by (auto simp: loadPosts_try_def split: option.splits)
  then show ?thesis
    using choose_feed_errors [OF cf] merge_pending_errors [OF mp] renderPosts_keeps [OF rn]
    by auto
qed

lemma loadPosts_quiet:
  assumes "\<not> loading a" and "fst (loadPosts_try rp w (a\<lparr>loading := True\<rparr>) s) = None"
  shows "fst (loadPosts rp w a s) = None"
    and "errors (fst (snd (loadPosts rp w a s))) = errors a"
proof -
  obtain a1 s1 where tr: "loadPosts_try rp w (a\<lparr>loading := True\<rparr>) s = (None, a1, s1)"
    using assms(2) by (cases "loadPosts_try rp w (a\<lparr>loading := True\<rparr>) s") auto
  have lp: "loadPosts rp w a s = (None, a1\<lparr>loading := False\<rparr>, s1)"
    using assms(1) tr by (simp add: loadPosts_def)
  show "fst (loadPosts rp w a s) = None" by (simp add: lp)
  show "errors (fst (snd (loadPosts rp w a s))) = errors a"
    using loadPosts_try_errors [OF tr] by (simp add: lp)
qed

lemma loadPosts_degraded:
  assumes "\<not> loading a"
    and "loadPosts_try rp w (a\<lparr>loading := True\<rparr>) s = (Some err, a1, s1)"
    and "sortByDate (cachedPosts s1) s1 = Inr (r, s2)"
    and "fst (renderPosts rp (a1\<lparr>posts := r\<rparr>) s2) = None"
  shows "fst (loadPosts rp w a s) = None"
    and "posts (fst (snd (loadPosts rp w a s))) = cachedPosts s1"
    and "snd (snd (loadPosts rp w a s)) = s2"
    and "errors (fst (snd (loadPosts rp w a s))) = errors a @ [degraded_message]"
    and "\<not> loading (fst (snd (loadPosts rp w a s)))"
proof -
  obtain a3 where rn: "renderPosts rp (a1\<lparr>posts := r\<rparr>) s2 = (None, a3)"
    using assms(4) by (cases "renderPosts rp (a1\<lparr>posts := r\<rparr>) s2") auto
  have r: "r = cachedPosts s1"
    using assms(3) by (auto simp: sortByDate_def split: sum.splits)
  have lp: "loadPosts rp w a s =
      (None, a3\<lparr>errors := errors a3 @ [degraded_message], loading := False\<rparr>, s2)"
    using assms(1,2,3) rn
    by (simp add: loadPosts_def loadPosts_catch_def set_posts_sorted_def degraded_message_def)
  have e3: "errors a3 = errors a" "posts a3 = r"
    using renderPosts_keeps [OF rn] loadPosts_try_errors [OF assms(2)] by simp_all
  show "fst (loadPosts rp w a s) = None" by (simp add: lp)
  show "posts (fst (snd (loadPosts rp w a s))) = cachedPosts s1" by (simp add: lp e3 r)
  show "snd (snd (loadPosts rp w a s)) = s2" by (simp add: lp)
  show "errors (fst (snd (loadPosts rp w a s))) = errors a @ [degraded_message]"
    by (simp add: lp e3)
  show "\<not> loading (fst (snd (loadPosts rp w a s)))" by (simp add: lp)
qed

lemma with_parsedData_Some:
  "env_data e = Parseable pd \<Longrightarrow>
   with_parsedData (Some e) =
     Inr \<lparr>post_id = env_id e, post_data = env_data e, post_signature = signature e,
          post_publicKey = publicKey e, parsedData = pd, isPending = False\<rparr>"
  by (simp add: with_parsedData_def)

lemma served_Cons:
  "env_data e = Parseable pd \<Longrightarrow>
   served (Response st (OutboxArray (Some e # els))) =
     \<lparr>post_id = env_id e, post_data = env_data e, post_signature = signature e,
      post_publicKey = publicKey e, parsedData = pd, isPending = False\<rparr>
     # served (Response st (OutboxArray els))"
  by (simp add: served_def)

lemma map_throw_served:
  "\<not> list_ex malformed els \<Longrightarrow>
   map_throw with_parsedData els = Inr (served (Response st (OutboxArray els)))"
proof (induction els)
  case Nil
  show ?case by (simp add: served_def)
next
  case (Cons el els)
  then have ih: "map_throw with_parsedData els = Inr (served (Response st (OutboxArray els)))"
    by simp
  from Cons.prems obtain e pd where el: "el = Some e" "env_data e = Parseable pd"
    by (cases el; cases "env_data (the el)") (auto simp: malformed_def)
  show ?case
    unfolding el(1) by (simp add: ih with_parsedData_Some [OF el(2)] served_Cons [OF el(2)])
qed

lemma fetchPosts_served:
  assumes "\<not> fetch_fails (source w s cowUrl)"
  shows "fetchPosts w s cowUrl = served (source w s cowUrl)"
proof -
  from assms obtain st els where r: "source w s cowUrl = Response st (OutboxArray els)"
    and ok: "response_ok st" and wf: "\<not> list_ex malformed els"
    by (auto simp: fetch_fails_def split: http.splits outbox_body.splits)
  show ?thesis
    using r ok map_throw_served [OF wf, of st]
    by (simp add: fetchPosts_def fetchPosts_try_def source_def)
qed

lemma fetch_all_concat:
  "fetch_all w s = concat (map (fetchPosts w s) (None # map Some (discoveredCows s)))"
  by (cases "discoveredCows s") (simp_all add: fetch_all_def Let_def comp_def)

lemma pendingForDisplay_parse:
  "env_data (envelope p) = Parseable pd \<Longrightarrow>
   pendingForDisplay p =
     Inr \<lparr>post_id = env_id (envelope p), post_data = env_data (envelope p),
          post_signature = signature (envelope p), post_publicKey = publicKey (envelope p),
          parsedData = pd, isPending = True\<rparr>"
  by (simp add: pendingForDisplay_def)

lemma shown_pending_Cons:
  "env_data (envelope p) = Parseable pd \<Longrightarrow>
   shown_pending (p # q) =
     \<lparr>post_id = env_id (envelope p), post_data = env_data (envelope p),
      post_signature = signature (envelope p), post_publicKey = publicKey (envelope p),
      parsedData = pd, isPending = True\<rparr> # shown_pending q"
  by (simp add: shown_pending_def)

lemma map_throw_pending:
  "\<not> list_ex unparseable q \<Longrightarrow> map_throw pendingForDisplay q = Inr (shown_pending q)"
proof (induction q)
  case Nil
  show ?case by (simp add: shown_pending_def)
next
  case (Cons p q)
  then have ih: "map_throw pendingForDisplay q = Inr (shown_pending q)" by simp
  from Cons.prems obtain pd where p: "env_data (envelope p) = Parseable pd"
    by (cases "env_data (envelope p)") (auto simp: unparseable_def)
  show ?case
    by (simp add: ih pendingForDisplay_parse [OF p] shown_pending_Cons [OF p])
qed

lemma pendingForDisplay_bad:
  "unparseable p \<Longrightarrow> pendingForDisplay p = Inl SyntaxErr"
  by (simp add: pendingForDisplay_def unparseable_def)

lemma map_throw_pending_bad:
  "list_ex unparseable q \<Longrightarrow> map_throw pendingForDisplay q = Inl SyntaxErr"
proof (induction q)
  case Nil
  then show ?case by simp
next
  case (Cons p q)
  show ?case
  proof (cases "env_data (envelope p)")
    case Unparseable
    then have "unparseable p" by (simp add: unparseable_def)
    then show ?thesis by (simp add: pendingForDisplay_bad)
  next
    case (Parseable pd)
    with Cons have "map_throw pendingForDisplay q = Inl SyntaxErr"
      by (simp add: unparseable_def)
    then show ?thesis by (simp add: pendingForDisplay_parse [OF Parseable])
  qed
qed

lemma map_throw_total:
  "\<forall>x \<in> set xs. \<not> isl (f x) \<Longrightarrow> \<exists>ys. map_throw f xs = Inr ys"
proof (induction xs)
  case Nil
  show ?case by simp
next
  case (Cons x xs)
  then obtain ys where "map_throw f xs = Inr ys" by auto
  moreover from Cons.prems obtain y where "f x = Inr y" by (cases "f x") auto
  ultimately show ?case by simp
qed

lemma dated_not_null: "dated p \<Longrightarrow> parsedData p \<noteq> PNull"
  by (auto simp: dated_def)

lemma renderPosts_ok:
  assumes "\<forall>p \<in> set (arrays s (posts a)). dated p \<and> \<not> isl (rp p)"
  shows "\<exists>cards. renderPosts rp a s = (None, a\<lparr>rendered := cards\<rparr>)"
proof (cases "length (arrays s (posts a)) = 0")
  case True
  then have "renderPosts rp a s = (None, a\<lparr>rendered := []\<rparr>)"
    by (simp add: renderPosts_def)
  then show ?thesis by blast
next
  case False
  let ?roots = "filter (\<lambda>p. \<not> truthy (pd_parent (parsedData p))) (arrays s (posts a))"
  have "getRootPosts (arrays s (posts a)) = Inr ?roots"
    using assms by (intro getRootPosts_falsy) (auto dest: dated_not_null)
  moreover obtain cards where "map_throw rp ?roots = Inr cards"
    using map_throw_total [of ?roots rp] assms by auto
  ultimately have "renderPosts rp a s = (None, a\<lparr>rendered := cards\<rparr>)"
    using False by (simp add: renderPosts_def)
  then show ?thesis by blast
qed

lemma choose_feed_pendingPosts:
  "choose_feed w a s = (e, a1, s1) \<Longrightarrow> pendingPosts s1 = pendingPosts s"
  by (auto simp: choose_feed_def alloc_def saveCachedPosts_def set_posts_sorted_def
        sortByDate_def Let_def split: if_splits sum.splits)

lemma by_date_desc_twice: "by_date_desc (by_date_desc ps) = by_date_desc ps"
  by (rule by_date_desc_id) (rule by_date_desc_keeps(2))

lemma choose_feed_dated:
  assumes lt: "cachedPosts s < fresh s" and d: "\<forall>p \<in> set (feed_source w s). dated p"
  shows "\<exists>a1 s1. choose_feed w a s = (None, a1, s1)
           \<and> arrays s1 (posts a1) = by_date_desc (feed_source w s)
           \<and> errors a1 = errors a \<and> loading a1 = loading a
           \<and> pendingPosts s1 = pendingPosts s
           \<and> cachedPosts s1 < fresh s1
           \<and> set (arrays s1 (cachedPosts s1)) = set (cache_after w s)
           \<and> by_date_desc (arrays s1 (cachedPosts s1)) = by_date_desc (cache_after w s)"
proof (cases "isOnline w \<and> uniquePosts (fetch_all w s) \<noteq> []")
  case False
  then have fb: "\<not> isOnline w \<or> uniquePosts (fetch_all w s) = []" by blast
  obtain e1 a1 s1 where cf: "choose_feed w a s = (e1, a1, s1)"
    by (cases "choose_feed w a s") auto
  have src: "feed_source w s = arrays s (cachedPosts s)" "cache_after w s = arrays s (cachedPosts s)"
    using False by (auto simp: feed_source_def cache_after_def)
  have dc: "\<forall>p \<in> set (arrays s (cachedPosts s)). dated p"
    using d by (simp add: src)
  have sc: "same_cache s s1" by (rule choose_feed_fallback(1) [OF lt fb cf])
  have r: "e1 = None" "a1 = a\<lparr>posts := cachedPosts s\<rparr>"
    "arrays s1 (cachedPosts s) = by_date_desc (arrays s (cachedPosts s))"
    using choose_feed_fallback(2) [OF lt fb cf dc] by simp_all
  have c1: "cachedPosts s1 = cachedPosts s" "cachedPosts s1 < fresh s1"
    using sc by (simp_all add: same_cache_def)
  show ?thesis
    using cf r c1 choose_feed_pendingPosts [OF cf]
    by (simp add: src by_date_desc_keeps by_date_desc_twice)
next
  case True
  let ?u = "uniquePosts (fetch_all w s)"
  let ?sA = "s\<lparr>arrays := (arrays s)(fresh s := ?u), fresh := Suc (fresh s)\<rparr>"
  let ?sB = "?sA\<lparr>arrays := (arrays ?sA)(Suc (fresh s) := take 100 ?u), fresh := Suc (Suc (fresh s))\<rparr>"
  let ?sC = "?sB\<lparr>stored_cached := Some (take 100 ?u), cachedPosts := Suc (fresh s)\<rparr>"
  have src: "feed_source w s = ?u"
    using True by (simp add: feed_source_def)
  have du: "\<forall>p \<in> set ?u. dated p" using d by (simp add: src)
  show ?thesis
  proof (cases "quota_ok w")
    case q: True
    have ca: "cache_after w s = take 100 ?u"
      using True q by (simp add: cache_after_def)
    have so: "sortByDate (fresh s) ?sC
        = Inr (fresh s, ?sC\<lparr>arrays := (arrays ?sC)(fresh s := by_date_desc ?u)\<rparr>)"
      using sortByDate_dated [of ?sC "fresh s"] du by simp
    have cf: "choose_feed w a s =
        (None, a\<lparr>posts := fresh s\<rparr>, ?sC\<lparr>arrays := (arrays ?sC)(fresh s := by_date_desc ?u)\<rparr>)"
      using True q so
      by (simp add: choose_feed_def alloc_def saveCachedPosts_def Let_def set_posts_sorted_def)
    show ?thesis
      unfolding cf src ca by simp
  next
    case q: False
    have ca: "cache_after w s = arrays s (cachedPosts s)"
      using q by (simp add: cache_after_def)
    have so: "sortByDate (fresh s) ?sB
        = Inr (fresh s, ?sB\<lparr>arrays := (arrays ?sB)(fresh s := by_date_desc ?u)\<rparr>)"
      using sortByDate_dated [of ?sB "fresh s"] du by simp
    have cf: "choose_feed w a s =
        (None, a\<lparr>posts := fresh s\<rparr>, ?sB\<lparr>arrays := (arrays ?sB)(fresh s := by_date_desc ?u)\<rparr>)"
      using True q so
      by (simp add: choose_feed_def alloc_def saveCachedPosts_def Let_def set_posts_sorted_def)
    show ?thesis
      unfolding cf src ca using lt by simp
  qed
qed

lemma merge_pending_dated:
  assumes "\<not> list_ex unparseable (pendingPosts s)"
    and "\<forall>p \<in> set (shown_pending (pendingPosts s) @ arrays s (posts a)). dated p"
    and "sorted (map (\<lambda>p. - date_of p) (arrays s (posts a)))"
  shows "\<exists>a' s'. merge_pending a s = (None, a', s')
           \<and> arrays s' (posts a') = by_date_desc (shown_pending (pendingPosts s) @ arrays s (posts a))
           \<and> errors a' = errors a \<and> loading a' = loading a"
proof (cases "pendingPosts s")
  case Nil
  then show ?thesis
    using assms(3) by (simp add: merge_pending_def shown_pending_def by_date_desc_id)
next
  case (Cons p q)
  let ?m = "shown_pending (pendingPosts s) @ arrays s (posts a)"
  let ?s1 = "s\<lparr>arrays := (arrays s)(fresh s := ?m), fresh := Suc (fresh s)\<rparr>"
  have so: "sortByDate (fresh s) ?s1
      = Inr (fresh s, ?s1\<lparr>arrays := (arrays ?s1)(fresh s := by_date_desc ?m)\<rparr>)"
    using sortByDate_dated [of ?s1 "fresh s"] assms(2) by simp
  have "merge_pending a s =
      (None, a\<lparr>posts := fresh s\<rparr>, ?s1\<lparr>arrays := (arrays ?s1)(fresh s := by_date_desc ?m)\<rparr>)"
    using Cons map_throw_pending [OF assms(1)] so
    by (simp add: merge_pending_def alloc_def set_posts_sorted_def)
  then show ?thesis by simp
qed

lemma loadPosts_feed:
  assumes nl: "\<not> loading a" and lt: "cachedPosts s < fresh s"
    and pq: "\<not> list_ex unparseable (pendingPosts s)"
    and ok: "\<forall>p \<in> set (shown_pending (pendingPosts s) @ feed_source w s). dated p \<and> \<not> isl (rp p)"
  shows "fst (loadPosts rp w a s) = None"
    and "errors (fst (snd (loadPosts rp w a s))) = errors a"
    and "arrays (snd (snd (loadPosts rp w a s))) (posts (fst (snd (loadPosts rp w a s))))
           = by_date_desc (shown_pending (pendingPosts s) @ by_date_desc (feed_source w s))"
proof -
  let ?a = "a\<lparr>loading := True\<rparr>"
  let ?feed = "by_date_desc (shown_pending (pendingPosts s) @ by_date_desc (feed_source w s))"
  have d: "\<forall>p \<in> set (feed_source w s). dated p" using ok by simp
  from choose_feed_dated [OF lt d, of ?a]
  obtain a1 s1 where cf: "choose_feed w ?a s = (None, a1, s1)"
    and f1: "arrays s1 (posts a1) = by_date_desc (feed_source w s)"
    and e1: "errors a1 = errors ?a" and p1: "pendingPosts s1 = pendingPosts s"
    by blast
  have "\<exists>a' s'. merge_pending a1 s1 = (None, a', s')
           \<and> arrays s' (posts a') = by_date_desc (shown_pending (pendingPosts s1) @ arrays s1 (posts a1))
           \<and> errors a' = errors a1 \<and> loading a' = loading a1"
    using pq ok by (intro merge_pending_dated) (simp_all add: p1 f1 by_date_desc_keeps)
  then obtain a2 s2 where mp: "merge_pending a1 s1 = (None, a2, s2)"
    and f2: "arrays s2 (posts a2) = ?feed" and e2: "errors a2 = errors a1"
    by (auto simp: p1 f1)
  have "\<forall>p \<in> set (arrays s2 (posts a2)). dated p \<and> \<not> isl (rp p)"
    using ok by (simp add: f2 by_date_desc_keeps)
  from renderPosts_ok [OF this]
  obtain cards where rn: "renderPosts rp a2 s2 = (None, a2\<lparr>rendered := cards\<rparr>)" by blast
  have tr: "loadPosts_try rp w ?a s = (None, a2\<lparr>rendered := cards\<rparr>, s2)"
    using cf mp rn by (simp add: loadPosts_try_def)
  have lp: "loadPosts rp w a s = (None, a2\<lparr>rendered := cards, loading := False\<rparr>, s2)"
    using nl tr by (simp add: loadPosts_def)
  show "fst (loadPosts rp w a s) = None" by (simp add: lp)
  show "errors (fst (snd (loadPosts rp w a s))) = errors a" by (simp add: lp e2 e1)
  show "arrays (snd (snd (loadPosts rp w a s))) (posts (fst (snd (loadPosts rp w a s)))) = ?feed"
    by (simp add: lp f2)
qed

lemma loadPosts_pending_degraded:
  assumes nl: "\<not> loading a" and lt: "cachedPosts s < fresh s"
    and bad: "list_ex unparseable (pendingPosts s)"
    and d: "\<forall>p \<in> set (feed_source w s). dated p"
    and ok: "\<forall>p \<in> set (cache_after w s). dated p \<and> \<not> isl (rp p)"
  shows "fst (loadPosts rp w a s) = None"
    and "errors (fst (snd (loadPosts rp w a s))) = errors a @ [degraded_message]"
    and "posts (fst (snd (loadPosts rp w a s))) = cachedPosts (snd (snd (loadPosts rp w a s)))"
    and "arrays (snd (snd (loadPosts rp w a s))) (posts (fst (snd (loadPosts rp w a s))))
           = by_date_desc (cache_after w s)"
proof -
  let ?a = "a\<lparr>loading := True\<rparr>"
  from choose_feed_dated [OF lt d, of ?a]
  obtain a1 s1 where cf: "choose_feed w ?a s = (None, a1, s1)"
    and p1: "pendingPosts s1 = pendingPosts s"
    and c1: "set (arrays s1 (cachedPosts s1)) = set (cache_after w s)"
    and b1: "by_date_desc (arrays s1 (cachedPosts s1)) = by_date_desc (cache_after w s)"
    by blast
  have ne: "length (pendingPosts s1) > 0"
    using bad p1 by (cases "pendingPosts s") simp_all
  have mp: "merge_pending a1 s1 = (Some SyntaxErr, a1, s1)"
    using ne map_throw_pending_bad [OF bad] by (simp add: merge_pending_def p1)
  have tr: "loadPosts_try rp w ?a s = (Some SyntaxErr, a1, s1)"
    using cf mp by (simp add: loadPosts_try_def)
  let ?s2 = "s1\<lparr>arrays := (arrays s1)(cachedPosts s1 := by_date_desc (arrays s1 (cachedPosts s1)))\<rparr>"
  have so: "sortByDate (cachedPosts s1) s1 = Inr (cachedPosts s1, ?s2)"
    using ok c1 by (intro sortByDate_dated) simp
  have "\<forall>p \<in> set (arrays ?s2 (posts (a1\<lparr>posts := cachedPosts s1\<rparr>))). dated p \<and> \<not> isl (rp p)"
    using ok c1 by (simp add: by_date_desc_keeps)
  from renderPosts_ok [OF this]
  have rn: "fst (renderPosts rp (a1\<lparr>posts := cachedPosts s1\<rparr>) ?s2) = None" by auto
  note D = loadPosts_degraded [OF nl tr so rn]
  show "fst (loadPosts rp w a s) = None" by (rule D(1))
  show "errors (fst (snd (loadPosts rp w a s))) = errors a @ [degraded_message]" by (rule D(4))
  show "posts (fst (snd (loadPosts rp w a s))) = cachedPosts (snd (snd (loadPosts rp w a s)))"
    by (simp add: D(2) D(3))
  show "arrays (snd (snd (loadPosts rp w a s))) (posts (fst (snd (loadPosts rp w a s))))
           = by_date_desc (cache_after w s)"
    by (simp add: D(2) D(3) b1)
qed

text \<open>
  Claim C5, as amended. An error of a fetch (no answer, a status that is not 2xx, a body
  that is not a JSON array, a malformed element) stays in \<open>fetchPosts\<close>: the node
  contributes no post and nothing is signalled, while a node that answers contributes
  the posts of its array. The posts fetched are those of the primary node followed by
  those of the discovered nodes; when every node fails nothing is fetched. Online with a
  deduplicated result that is not empty, the feed is that result, sorted, merged with
  the pending entries and sorted again; otherwise the feed is the cache, sorted and
  merged in the same way. In both cases, for posts with valid dates that render,
  \<open>loadPosts\<close> ends without exception and shows no message. When the \<open>data\<close> of a
  pending entry does not parse, the \<open>try\<close> block throws; then, for a cache with valid
  dates that renders, \<open>loadPosts\<close> ends without exception, the feed is the sorted
  cache, which \<open>this.posts\<close> refers to, and the message is shown.
\<close>

theorem loadPosts_error_handling:
  assumes "\<not> loading a" and "cachedPosts s < fresh s"
  shows "fetchPosts w s cowUrl =
           (if fetch_fails (source w s cowUrl) then [] else served (source w s cowUrl))
       \<and> fetch_all w s = concat (map (fetchPosts w s) (None # map Some (discoveredCows s)))
       \<and> ((\<forall>c \<in> set (None # map Some (discoveredCows s)). fetch_fails (source w s c)) \<longrightarrow>
            uniquePosts (fetch_all w s) = [])
       \<and> (isOnline w \<and> uniquePosts (fetch_all w s) \<noteq> []
            \<and> \<not> list_ex unparseable (pendingPosts s)
            \<and> (\<forall>p \<in> set (shown_pending (pendingPosts s) @ uniquePosts (fetch_all w s)).
                  dated p \<and> \<not> isl (rp p)) \<longrightarrow>
            fst (loadPosts rp w a s) = None
            \<and> errors (fst (snd (loadPosts rp w a s))) = errors a
            \<and> arrays (snd (snd (loadPosts rp w a s))) (posts (fst (snd (loadPosts rp w a s))))
                = by_date_desc (shown_pending (pendingPosts s)
                                  @ by_date_desc (uniquePosts (fetch_all w s))))
       \<and> ((\<not> isOnline w \<or> uniquePosts (fetch_all w s) = [])
            \<and> \<not> list_ex unparseable (pendingPosts s)
            \<and> (\<forall>p \<in> set (shown_pending (pendingPosts s) @ arrays s (cachedPosts s)).
                  dated p \<and> \<not> isl (rp p)) \<longrightarrow>
            fst (loadPosts rp w a s) = None
            \<and> errors (fst (snd (loadPosts rp w a s))) = errors a
            \<and> arrays (snd (snd (loadPosts rp w a s))) (posts (fst (snd (loadPosts rp w a s))))
                = by_date_desc (shown_pending (pendingPosts s)
                                  @ by_date_desc (arrays s (cachedPosts s))))
       \<and> (list_ex unparseable (pendingPosts s)
            \<and> (\<forall>p \<in> set (feed_source w s). dated p)
            \<and> (\<forall>p \<in> set (cache_after w s). dated p \<and> \<not> isl (rp p)) \<longrightarrow>
            fst (loadPosts rp w a s) = None
            \<and> errors (fst (snd (loadPosts rp w a s))) = errors a @ [degraded_message]
            \<and> posts (fst (snd (loadPosts rp w a s))) = cachedPosts (snd (snd (loadPosts rp w a s)))
            \<and> arrays (snd (snd (loadPosts rp w a s))) (posts (fst (snd (loadPosts rp w a s))))
                = by_date_desc (cache_after w s))"
proof (intro conjI impI)
  show "fetchPosts w s cowUrl =
           (if fetch_fails (source w s cowUrl) then [] else served (source w s cowUrl))"
    by (simp add: fetchPosts_absorbs fetchPosts_served)
  show "fetch_all w s = concat (map (fetchPosts w s) (None # map Some (discoveredCows s)))"
    by (rule fetch_all_concat)
next
  assume "\<forall>c \<in> set (None # map Some (discoveredCows s)). fetch_fails (source w s c)"
  then have "fetch_all w s = []" by (rule fetch_all_absorbs)
  then show "uniquePosts (fetch_all w s) = []"
    by (simp add: uniquePosts_def new_Map_def)
next
  assume h: "isOnline w \<and> uniquePosts (fetch_all w s) \<noteq> []
            \<and> \<not> list_ex unparseable (pendingPosts s)
            \<and> (\<forall>p \<in> set (shown_pending (pendingPosts s) @ uniquePosts (fetch_all w s)).
                  dated p \<and> \<not> isl (rp p))"
  then have src: "feed_source w s = uniquePosts (fetch_all w s)"
    by (simp add: feed_source_def)
  have pq: "\<not> list_ex unparseable (pendingPosts s)" using h by blast
  have ok: "\<forall>p \<in> set (shown_pending (pendingPosts s) @ feed_source w s). dated p \<and> \<not> isl (rp p)"
    using h unfolding src by blast
  note L = loadPosts_feed [OF assms pq ok]
  show "fst (loadPosts rp w a s) = None" by (rule L(1))
  show "errors (fst (snd (loadPosts rp w a s))) = errors a" by (rule L(2))
  show "arrays (snd (snd (loadPosts rp w a s))) (posts (fst (snd (loadPosts rp w a s))))
                = by_date_desc (shown_pending (pendingPosts s)
                                  @ by_date_desc (uniquePosts (fetch_all w s)))"
    using L(3) by (simp only: src)
next
  assume h: "(\<not> isOnline w \<or> uniquePosts (fetch_all w s) = [])
            \<and> \<not> list_ex unparseable (pendingPosts s)
            \<and> (\<forall>p \<in> set (shown_pending (pendingPosts s) @ arrays s (cachedPosts s)).
                  dated p \<and> \<not> isl (rp p))"
  then have src: "feed_source w s = arrays s (cachedPosts s)"
    by (auto simp: feed_source_def)
  have pq: "\<not> list_ex unparseable (pendingPosts s)" using h by blast
  have ok: "\<forall>p \<in> set (shown_pending (pendingPosts s) @ feed_source w s). dated p \<and> \<not> isl (rp p)"
    using h unfolding src by blast
  note L = loadPosts_feed [OF assms pq ok]
  show "fst (loadPosts rp w a s) = None" by (rule L(1))
  show "errors (fst (snd (loadPosts rp w a s))) = errors a" by (rule L(2))
  show "arrays (snd (snd (loadPosts rp w a s))) (posts (fst (snd (loadPosts rp w a s))))
                = by_date_desc (shown_pending (pendingPosts s)
                                  @ by_date_desc (arrays s (cachedPosts s)))"
    using L(3) by (simp only: src)
next
  assume h: "list_ex unparseable (pendingPosts s)
            \<and> (\<forall>p \<in> set (feed_source w s). dated p)
            \<and> (\<forall>p \<in> set (cache_after w s). dated p \<and> \<not> isl (rp p))"
  then have bad: "list_ex unparseable (pendingPosts s)"
    and d: "\<forall>p \<in> set (feed_source w s). dated p"
    and ok: "\<forall>p \<in> set (cache_after w s). dated p \<and> \<not> isl (rp p)"
    by blast+
  note D = loadPosts_pending_degraded [OF assms bad d ok]
  show "fst (loadPosts rp w a s) = None" by (rule D(1))
  show "errors (fst (snd (loadPosts rp w a s))) = errors a @ [degraded_message]" by (rule D(2))
  show "posts (fst (snd (loadPosts rp w a s))) = cachedPosts (snd (snd (loadPosts rp w a s)))"
    by (rule D(3))
  show "arrays (snd (snd (loadPosts rp w a s))) (posts (fst (snd (loadPosts rp w a s))))
                = by_date_desc (cache_after w s)"
    by (rule D(4))
qed

theorem loadPosts_error_handling_witness:
  "\<not> loading app0
   \<and> cachedPosts (cache_state\<lparr>discoveredCows := [''http://b:3000'']\<rparr>)
       < fresh (cache_state\<lparr>discoveredCows := [''http://b:3000'']\<rparr>)
   \<and> isOnline half_world
   \<and> fetch_fails (source half_world (cache_state\<lparr>discoveredCows := [''http://b:3000'']\<rparr>) None)
   \<and> \<not> fetch_fails (source half_world (cache_state\<lparr>discoveredCows := [''http://b:3000'']\<rparr>)
                      (Some ''http://b:3000''))
   \<and> fetchPosts half_world (cache_state\<lparr>discoveredCows := [''http://b:3000'']\<rparr>) None = []
   \<and> fetchPosts half_world (cache_state\<lparr>discoveredCows := [''http://b:3000'']\<rparr>)
        (Some ''http://b:3000'') = [mk_post ''b2'' 20 (JStr ''a1'')]
   \<and> fetch_all half_world (cache_state\<lparr>discoveredCows := [''http://b:3000'']\<rparr>)
       = [mk_post ''b2'' 20 (JStr ''a1'')]
   \<and> dated (mk_post ''b2'' 20 (JStr ''a1'')) \<and> \<not> isl (render_ok (mk_post ''b2'' 20 (JStr ''a1'')))
   \<and> fst (loadPosts render_ok half_world app0 (cache_state\<lparr>discoveredCows := [''http://b:3000'']\<rparr>))
       = None
   \<and> errors (fst (snd (loadPosts render_ok half_world app0
                (cache_state\<lparr>discoveredCows := [''http://b:3000'']\<rparr>)))) = []
   \<and> arrays (snd (snd (loadPosts render_ok half_world app0
                (cache_state\<lparr>discoveredCows := [''http://b:3000'']\<rparr>))))
        (posts (fst (snd (loadPosts render_ok half_world app0
                (cache_state\<lparr>discoveredCows := [''http://b:3000'']\<rparr>)))))
       = [mk_post ''b2'' 20 (JStr ''a1'')]
   \<and> cachedPosts bad_pending_state < fresh bad_pending_state
   \<and> list_ex unparseable (pendingPosts bad_pending_state)
   \<and> dated (mk_post ''a1'' 10 JNull) \<and> dated (mk_post ''b2'' 20 JNull)
   \<and> fst (loadPosts render_ok offline_world app0 bad_pending_state) = None
   \<and> errors (fst (snd (loadPosts render_ok offline_world app0 bad_pending_state)))
       = [degraded_message]
   \<and> arrays (snd (snd (loadPosts render_ok offline_world app0 bad_pending_state)))
        (posts (fst (snd (loadPosts render_ok offline_world app0 bad_pending_state))))
       = [mk_post ''b2'' 20 JNull, mk_post ''a1'' 10 JNull]"
proof -
  let ?s = "cache_state\<lparr>discoveredCows := [''http://b:3000'']\<rparr>"
  let ?b = "mk_post ''b2'' 20 (JStr ''a1'')"
  have nl: "\<not> loading app0" by (simp add: app0_def)
  have lt: "cachedPosts ?s < fresh ?s" by (simp add: cache_state_def state0_def)
  have on: "isOnline half_world" by (simp add: half_world_def deaf_world_def)
  have f1: "fetch_fails (source half_world ?s None)"
    by (simp add: fetch_fails_def source_def half_world_def deaf_world_def cache_state_def
          state0_def target_def outbox_url_def)
  have f2: "\<not> fetch_fails (source half_world ?s (Some ''http://b:3000''))"
    by (simp add: fetch_fails_def source_def half_world_def deaf_world_def target_def
          outbox_url_def response_ok_def malformed_def env1_def)
  have sv: "served (source half_world ?s (Some ''http://b:3000'')) = [?b]"
    by (simp add: served_def source_def half_world_def deaf_world_def target_def
          outbox_url_def env1_def mk_post_def)
  note T1 = loadPosts_error_handling [OF nl lt, of half_world None render_ok]
  note T2 = loadPosts_error_handling [OF nl lt, of half_world "Some ''http://b:3000''" render_ok]
  have p1: "fetchPosts half_world ?s None = []"
    using T1 f1 by simp
  have p2: "fetchPosts half_world ?s (Some ''http://b:3000'') = [?b]"
    using T2 f2 sv by simp
  have "fetch_all half_world ?s
      = concat (map (fetchPosts half_world ?s) (None # map Some (discoveredCows ?s)))"
    using T1 by blast
  then have fa: "fetch_all half_world ?s = [?b]"
    using p1 p2 by (simp add: cache_state_def state0_def)
  have u: "uniquePosts (fetch_all half_world ?s) = [?b]"
    by (simp add: fa uniquePosts_def new_Map_def)
  have db: "dated ?b" "\<not> isl (render_ok ?b)"
    by (simp_all add: dated_def mk_post_def render_ok_def)
  have q: "pendingPosts ?s = []" by (simp add: cache_state_def state0_def)
  have pre: "isOnline half_world \<and> uniquePosts (fetch_all half_world ?s) \<noteq> []
            \<and> \<not> list_ex unparseable (pendingPosts ?s)
            \<and> (\<forall>p \<in> set (shown_pending (pendingPosts ?s) @ uniquePosts (fetch_all half_world ?s)).
                  dated p \<and> \<not> isl (render_ok p))"
    using on db by (simp add: u q shown_pending_def)
  have r1: "fst (loadPosts render_ok half_world app0 ?s) = None
      \<and> errors (fst (snd (loadPosts render_ok half_world app0 ?s))) = errors app0
      \<and> arrays (snd (snd (loadPosts render_ok half_world app0 ?s)))
           (posts (fst (snd (loadPosts render_ok half_world app0 ?s))))
          = by_date_desc (shown_pending (pendingPosts ?s)
                            @ by_date_desc (uniquePosts (fetch_all half_world ?s)))"
    using T1 pre by blast
  have s1: "by_date_desc (shown_pending (pendingPosts ?s)
                            @ by_date_desc (uniquePosts (fetch_all half_world ?s))) = [?b]"
    by (simp add: u q shown_pending_def by_date_desc_def)
  have lt2: "cachedPosts bad_pending_state < fresh bad_pending_state"
    by (simp add: bad_pending_state_def cache_state_def state0_def)
  have bad: "list_ex unparseable (pendingPosts bad_pending_state)"
    by (simp add: bad_pending_state_def unparseable_def env_bad_def)
  have off: "\<not> isOnline offline_world" by (simp add: offline_world_def)
  have cache: "arrays bad_pending_state (cachedPosts bad_pending_state)
      = [mk_post ''a1'' 10 JNull, mk_post ''b2'' 20 JNull]"
    by (simp add: bad_pending_state_def cache_state_def state0_def)
  have src: "feed_source offline_world bad_pending_state
      = [mk_post ''a1'' 10 JNull, mk_post ''b2'' 20 JNull]"
    "cache_after offline_world bad_pending_state
      = [mk_post ''a1'' 10 JNull, mk_post ''b2'' 20 JNull]"
    using off cache by (simp_all add: feed_source_def cache_after_def)
  have dc: "dated (mk_post ''a1'' 10 JNull)" "dated (mk_post ''b2'' 20 JNull)"
    by (simp_all add: dated_def mk_post_def)
  have pre2: "list_ex unparseable (pendingPosts bad_pending_state)
            \<and> (\<forall>p \<in> set (feed_source offline_world bad_pending_state). dated p)
            \<and> (\<forall>p \<in> set (cache_after offline_world bad_pending_state).
                  dated p \<and> \<not> isl (render_ok p))"
    using bad dc by (simp add: src render_ok_def)
  note T3 = loadPosts_error_handling [OF nl lt2, of offline_world None render_ok]
  have r2: "fst (loadPosts render_ok offline_world app0 bad_pending_state) = None
      \<and> errors (fst (snd (loadPosts render_ok offline_world app0 bad_pending_state)))
          = errors app0 @ [degraded_message]
      \<and> arrays (snd (snd (loadPosts render_ok offline_world app0 bad_pending_state)))
           (posts (fst (snd (loadPosts render_ok offline_world app0 bad_pending_state))))
          = by_date_desc (cache_after offline_world bad_pending_state)"
    using T3 pre2 by blast
  have s2: "by_date_desc (cache_after offline_world bad_pending_state)
      = [mk_post ''b2'' 20 JNull, mk_post ''a1'' 10 JNull]"
    by (simp add: src by_date_desc_def date_of_def mk_post_def)
  have e0: "errors app0 = []" by (simp add: app0_def)
  show ?thesis
    using nl lt on f1 f2 p1 p2 fa db r1 s1 lt2 bad dc r2 s2 e0 by simp
qed

text \<open>
  The claim C5 as it was stated fails: the primary node cannot be reached, and
  \<open>loadPosts\<close> shows the post of the other node, not the sorted cache, and signals
  nothing.
\<close>

theorem loadPosts_fetch_error_counterexample:
  "fetch_fails (source half_world (cache_state\<lparr>discoveredCows := [''http://b:3000'']\<rparr>) None)
   \<and> fst (loadPosts render_ok half_world app0 (cache_state\<lparr>discoveredCows := [''http://b:3000'']\<rparr>))
       = None
   \<and> errors (fst (snd (loadPosts render_ok half_world app0
                (cache_state\<lparr>discoveredCows := [''http://b:3000'']\<rparr>)))) = []
   \<and> arrays (snd (snd (loadPosts render_ok half_world app0
                (cache_state\<lparr>discoveredCows := [''http://b:3000'']\<rparr>))))
        (posts (fst (snd (loadPosts render_ok half_world app0
                (cache_state\<lparr>discoveredCows := [''http://b:3000'']\<rparr>)))))
       = [mk_post ''b2'' 20 (JStr ''a1'')]
   \<and> by_date_desc (arrays (cache_state\<lparr>discoveredCows := [''http://b:3000'']\<rparr>)
        (cachedPosts (cache_state\<lparr>discoveredCows := [''http://b:3000'']\<rparr>)))
       = [mk_post ''b2'' 20 JNull, mk_post ''a1'' 10 JNull]"
  by (simp add: run_defs fetch_fails_def source_def half_world_def deaf_world_def cache_state_def
        state0_def app0_def mk_post_def render_ok_def env1_def by_date_desc_def date_of_def)

text \<open>
  A fetched envelope whose \<open>data\<close> is \<open>null\<close> is cached before the feed is sorted; the
  sort throws, the fallback sorts the cache that now holds the envelope and throws
  again, and \<open>loadPosts\<close> ends with the exception.
\<close>

lemma loadPosts_null_data_propagates:
  "fst (loadPosts render_ok null_world app0 state0) = Some TypeErr
   \<and> errors (fst (snd (loadPosts render_ok null_world app0 state0))) = []"
  by (simp add: run_defs null_world_def deaf_world_def state0_def app0_def render_ok_def
        env0_def env_null_def)

section \<open>Discovery\<close>

lemma notifyListeners_all:
  "\<forall>l \<in> set ls. \<not> listener_throws l cows \<Longrightarrow>
   notifyListeners ls cows calls = (None, calls @ map (\<lambda>l. (listener_id l, cows)) ls)"
  by (induction ls arbitrary: calls) simp_all

lemma notifyListeners_called:
  "notifyListeners ls cows calls =
     (if \<forall>l \<in> set ls. \<not> listener_throws l cows then None else Some TypeErr,
      calls @ map (\<lambda>l. (listener_id l, cows)) (called ls cows))"
  by (induction ls arbitrary: calls) (simp_all add: called_def)

text \<open>
  Claim C4, as amended. On a native platform, a scan that ends without error and finds
  services replaces the known cows with the cows of the scan and calls the subscribers,
  in order, with the new list. When no subscriber throws, every subscriber is called and
  \<open>discover\<close> returns the new list. When a subscriber throws, those after it are not
  called and \<open>discover\<close> returns the empty list, the known cows staying replaced. A
  scan that is rejected, reports an error or finds no service makes \<open>discover\<close> return
  the empty list, with the known cows as they were and no subscriber called. Elsewhere
  \<open>discover\<close> returns the empty list and changes nothing.
\<close>

theorem discover_outcomes:
  "(svcs \<noteq> [] \<longrightarrow>
      discover True (ScanResult False (Some svcs)) d =
        (if \<forall>l \<in> set (listeners d). \<not> listener_throws l (map toCow svcs)
         then map toCow svcs else [],
         d\<lparr>ds_discoveredCows := map toCow svcs,
           notified := notified d
                         @ map (\<lambda>l. (listener_id l, map toCow svcs)) (called (listeners d) (map toCow svcs)),
           isDiscovering := False\<rparr>))
   \<and> (svcs \<noteq> [] \<and> (\<forall>l \<in> set (listeners d). \<not> listener_throws l (map toCow svcs)) \<longrightarrow>
      discover True (ScanResult False (Some svcs)) d =
        (map toCow svcs,
         d\<lparr>ds_discoveredCows := map toCow svcs,
           notified := notified d @ map (\<lambda>l. (listener_id l, map toCow svcs)) (listeners d),
           isDiscovering := False\<rparr>))
   \<and> (no_services result \<longrightarrow> discover True result d = ([], d\<lparr>isDiscovering := False\<rparr>))
   \<and> discover False result d = ([], d)"
proof (intro conjI impI)
  assume "svcs \<noteq> []"
  then show "discover True (ScanResult False (Some svcs)) d =
        (if \<forall>l \<in> set (listeners d). \<not> listener_throws l (map toCow svcs)
         then map toCow svcs else [],
         d\<lparr>ds_discoveredCows := map toCow svcs,
           notified := notified d
                         @ map (\<lambda>l. (listener_id l, map toCow svcs)) (called (listeners d) (map toCow svcs)),
           isDiscovering := False\<rparr>)"
    by (simp add: discover_def Let_def notifyListeners_called)
next
  assume h: "svcs \<noteq> [] \<and> (\<forall>l \<in> set (listeners d). \<not> listener_throws l (map toCow svcs))"
  then have n: "notifyListeners (listeners d) (map toCow svcs) (notified d) =
      (None, notified d @ map (\<lambda>l. (listener_id l, map toCow svcs)) (listeners d))"
    by (simp add: notifyListeners_all)
  show "discover True (ScanResult False (Some svcs)) d =
        (map toCow svcs,
         d\<lparr>ds_discoveredCows := map toCow svcs,
           notified := notified d @ map (\<lambda>l. (listener_id l, map toCow svcs)) (listeners d),
           isDiscovering := False\<rparr>)"
    using h by (simp add: discover_def Let_def n)
next
  assume "no_services result"
  then show "discover True result d = ([], d\<lparr>isDiscovering := False\<rparr>)"
    by (auto simp: discover_def no_services_def Let_def split: scan.splits option.splits)
next
  show "discover False result d = ([], d)"
    by (simp add: discover_def)
qed

theorem discover_outcomes_witness:
  "[svc0, svc0\<lparr>svc_name := ''shed''\<rparr>] \<noteq> []
   \<and> \<not> listener_throws quiet_listener (map toCow [svc0, svc0\<lparr>svc_name := ''shed''\<rparr>])
   \<and> discover True (ScanResult False (Some [svc0, svc0\<lparr>svc_name := ''shed''\<rparr>])) discovery0 =
       ([toCow svc0, toCow (svc0\<lparr>svc_name := ''shed''\<rparr>)],
        discovery0\<lparr>ds_discoveredCows := [toCow svc0, toCow (svc0\<lparr>svc_name := ''shed''\<rparr>)],
          notified := [(0, [toCow svc0, toCow (svc0\<lparr>svc_name := ''shed''\<rparr>)])]\<rparr>)
   \<and> listener_throws throwing_listener (map toCow [svc0, svc0\<lparr>svc_name := ''shed''\<rparr>])
   \<and> discover True (ScanResult False (Some [svc0, svc0\<lparr>svc_name := ''shed''\<rparr>]))
        (discovery0\<lparr>ds_discoveredCows := [], listeners := [quiet_listener, throwing_listener, quiet_listener]\<rparr>) =
       ([],
        discovery0\<lparr>ds_discoveredCows := [toCow svc0, toCow (svc0\<lparr>svc_name := ''shed''\<rparr>)],
          listeners := [quiet_listener, throwing_listener, quiet_listener],
          notified := [(0, [toCow svc0, toCow (svc0\<lparr>svc_name := ''shed''\<rparr>)]),
                       (1, [toCow svc0, toCow (svc0\<lparr>svc_name := ''shed''\<rparr>)])]\<rparr>)
   \<and> no_services (ScanResult True None)
   \<and> discover True (ScanResult True None) discovery0 = ([], discovery0)
   \<and> toCow svc0 = \<lparr>cow_name = ''barn'', cow_url = ''http://192.168.1.7:3000'',
                     cow_host = Some ''192.168.1.7'', cow_port = 3000, cow_txt = []\<rparr>"
proof -
  let ?svcs = "[svc0, svc0\<lparr>svc_name := ''shed''\<rparr>]"
  let ?d = "discovery0\<lparr>ds_discoveredCows := [], listeners := [quiet_listener, throwing_listener, quiet_listener]\<rparr>"
  have a: "?svcs \<noteq> []" by simp
  have b: "\<not> listener_throws quiet_listener (map toCow ?svcs)"
    by (simp add: quiet_listener_def)
  then have b': "\<forall>l \<in> set (listeners discovery0). \<not> listener_throws l (map toCow ?svcs)"
    by (simp add: discovery0_def)
  have t: "listener_throws throwing_listener (map toCow ?svcs)"
    by (simp add: throwing_listener_def)
  have c: "no_services (ScanResult True None)" by (simp add: no_services_def)
  note T = discover_outcomes [of ?svcs discovery0 "ScanResult True None"]
  note U = discover_outcomes [of ?svcs ?d "ScanResult True None"]
  have "discover True (ScanResult False (Some ?svcs)) discovery0 =
        (map toCow ?svcs,
         discovery0\<lparr>ds_discoveredCows := map toCow ?svcs,
           notified := notified discovery0 @ map (\<lambda>l. (listener_id l, map toCow ?svcs)) (listeners discovery0),
           isDiscovering := False\<rparr>)"
    using T a b' by blast
  moreover have "discover True (ScanResult True None) discovery0 = ([], discovery0\<lparr>isDiscovering := False\<rparr>)"
    using T c by blast
  moreover have "discover True (ScanResult False (Some ?svcs)) ?d =
        (if \<forall>l \<in> set (listeners ?d). \<not> listener_throws l (map toCow ?svcs)
         then map toCow ?svcs else [],
         ?d\<lparr>ds_discoveredCows := map toCow ?svcs,
           notified := notified ?d
                         @ map (\<lambda>l. (listener_id l, map toCow ?svcs)) (called (listeners ?d) (map toCow ?svcs)),
           isDiscovering := False\<rparr>)"
    using U a by blast
  moreover have "toCow svc0 = \<lparr>cow_name = ''barn'', cow_url = ''http://192.168.1.7:3000'',
                     cow_host = Some ''192.168.1.7'', cow_port = 3000, cow_txt = []\<rparr>"
    by (simp add: toCow_def svc0_def decimal.simps)
  ultimately show ?thesis
    using a b c t
    by (simp add: discovery0_def quiet_listener_def throwing_listener_def called_def)
qed

text \<open>
  The claim C4 as it was stated fails: a scan that ends without error and finds no
  service leaves the known cow in place and calls no subscriber.
\<close>

theorem discover_empty_scan_counterexample:
  "ds_discoveredCows (snd (discover True (ScanResult False (Some [])) discovery0)) = [toCow svc0]
   \<and> ds_discoveredCows (snd (discover True (ScanResult False (Some [])) discovery0)) \<noteq> []
   \<and> notified (snd (discover True (ScanResult False (Some [])) discovery0)) = []
   \<and> listeners discovery0 = [quiet_listener]"
  by (simp add: discover_def discovery0_def Let_def)

lemma toCow_svc0:
  "toCow svc0 = \<lparr>cow_name = ''barn'', cow_url = ''http://192.168.1.7:3000'',
                  cow_host = Some ''192.168.1.7'', cow_port = 3000, cow_txt = []\<rparr>"
  by (simp add: toCow_def svc0_def decimal.simps)

end
